theory Spec2Isabelle
  imports Main
begin

section \<open>Scaly: layered dispatch over async generators (index.js)\<close>

text \<open>
  The development embeds \<^verbatim>\<open>index.js\<close>. JavaScript values are kept abstract:
  \<open>'a\<close> is the type of call arguments, \<open>'v\<close> the type of every value other than
  \<^verbatim>\<open>undefined\<close> (so \<open>'v option\<close> is a JavaScript value, \<open>None\<close> being
  \<^verbatim>\<open>undefined\<close>; \<^verbatim>\<open>null\<close> is a value of \<open>'v\<close>), \<open>'x\<close> the type of what a
  handler throws, and \<open>'w\<close> the state of everything outside the engine (the layers' own
  caches and stores, and the contents of objects that values refer to). A value of \<open>'v\<close> is
  what JavaScript passes around: a primitive or a reference, compared by identity.
\<close>

subsection \<open>Promises and async generators\<close>

text \<open>
  The promise of an asynchronous computation, as the computation that settles it. The
  computation is fulfilled with a value, throws, awaits something that never settles, or
  runs a stretch of code on the outside state (the code up to its next \<^verbatim>\<open>await\<close>) and
  goes on as the state it found tells. Between two stretches of one computation, stretches
  of other computations may run.
\<close>

datatype ('r, 'x, 'w) promise =
    Fulfils 'r
  | Rejects 'x
  | Never
  | Then "'w \<Rightarrow> 'w" "'w \<Rightarrow> ('r, 'x, 'w) promise"

text \<open>How a promise that is awaited with nothing else running ends.\<close>

datatype ('r, 'x) result = Value 'r | Thrown 'x | Hangs

primrec run :: "('r, 'x, 'w) promise \<Rightarrow> 'w \<Rightarrow> ('r, 'x) result \<times> 'w" where
  "run (Fulfils r) w = (Value r, w)"
| "run (Rejects x) w = (Thrown x, w)"
| "run Never w = (Hangs, w)"
| "run (Then eff nxt) w = run (nxt w) (eff w)"

text \<open>
  The first stretch only: what calling an async function does before it hands its promise
  back.
\<close>

fun start :: "('r, 'x, 'w) promise \<Rightarrow> 'w \<Rightarrow> ('r, 'x, 'w) promise \<times> 'w" where
  "start (Then eff nxt) w = (nxt w, eff w)"
| "start p w = (p, w)"

text \<open>
  An async generator object is its \<^verbatim>\<open>next\<close> method: given the value sent in, the
  promise of the iterator result \<^verbatim>\<open>{value, done}\<close>, reached at the following
  \<^verbatim>\<open>yield\<close> or \<^verbatim>\<open>return\<close>, together with the generator (a mutable object in
  JavaScript) in its new state.
\<close>

codatatype ('v, 'x, 'w) gen =
  Gen (gen_next: "'v option \<Rightarrow> ('v option \<times> bool \<times> ('v, 'x, 'w) gen, 'x, 'w) promise")

text \<open>
  What the engine sees of a settled \<^verbatim>\<open>gen.next(x)\<close>: the iterator result, or what
  was thrown; \<open>Pending_forever\<close> stands for a promise that never settles.
\<close>

datatype ('v, 'x) settled =
    Fulfilled "'v option" bool
  | Rejected 'x
  | Pending_forever

text \<open>
  A layer, as far as the engine looks at it: \<^verbatim>\<open>layer.toString()\<close>,
  \<^verbatim>\<open>Object.keys(layer)\<close> (own enumerable keys, in the object's key order) and the
  property read \<^verbatim>\<open>layer[op]\<close>. Following \<^verbatim>\<open>index.d.ts\<close> (\<^verbatim>\<open>ScalyResult\<close>), a
  property that is not falsy is an async generator function; \<open>getprop l op = None\<close> stands
  for a falsy \<^verbatim>\<open>layer[op]\<close> (missing, or present with a falsy value). Calling an async
  generator function runs none of its body, so instantiating a handler has no effect on
  the outside state. A handler that throws while its arguments are bound is taken as one
  whose first \<^verbatim>\<open>next\<close> is rejected: the call is rejected with the same value either
  way. \<^verbatim>\<open>layer.toString()\<close> is taken to return a string.
\<close>

record ('a, 'v, 'x, 'w) layer =
  toString :: string
  own_keys :: "string list"
  getprop :: "string \<Rightarrow> ('a list \<Rightarrow> ('v, 'x, 'w) gen) option"

subsection \<open>Results of a call\<close>

text \<open>
  What is thrown: the \<^verbatim>\<open>TypeError\<close> of line 3 and the \<^verbatim>\<open>Error\<close> of line 73 with their
  messages, a value raised by a handler, or the \<^verbatim>\<open>TypeError\<close> of a built-in setter
  (see \<open>obj_put\<close>), whose message is the engine's.
\<close>

datatype 'x failure =
    TypeError string
  | Error string
  | Raised 'x
  | Setter_TypeError

text \<open>
  A call of a composed operation returns the array \<^verbatim>\<open>[ok, value]\<close>, or its promise is
  rejected, or it never settles (when a handler's promise never does).
\<close>

datatype ('v, 'x) outcome =
    Returns bool "'v option"
  | Throws "'x failure"
  | Never_settles

text \<open>
  The engine's actions on the handlers and what it is told of them, recorded in the order
  in which they happen, for the statements below (the source keeps no such record).
  Layers are identified by their position in the layer array. \<open>Instantiate i\<close> is line
  26 for layer \<open>i\<close>; \<open>Drive i s\<close> is line 29 with the settlement of
  \<^verbatim>\<open>gen.next()\<close>; \<open>Resume i r\<close> is the call \<^verbatim>\<open>gen.next(result)\<close> of line 37 on the
  pending generator of layer \<open>i\<close>, with the value sent; \<open>Settle i s\<close> is the
  settlement of the promise of that call, as \<^verbatim>\<open>Promise.all\<close> of line 36 is told of
  it.
\<close>

datatype ('v, 'x) event =
    Instantiate nat
  | Drive nat "('v, 'x) settled"
  | Resume nat "'v option"
  | Settle nat "('v, 'x) settled"

text \<open>
  The variables of one call: \<^verbatim>\<open>attemptedLayers\<close>, \<^verbatim>\<open>pendingGenerators\<close> (each
  generator with the position of its layer, for the record of actions), the record of
  actions and the outside state.
\<close>

record ('v, 'x, 'w) call_state =
  attemptedLayers :: "string list"
  pendingGenerators :: "(nat \<times> ('v, 'x, 'w) gen) list"
  actions :: "('v, 'x) event list"
  world :: 'w

subsection \<open>The set of operations (lines 6 to 8)\<close>

text \<open>
  A JavaScript \<^verbatim>\<open>Set\<close> iterates in insertion order, and adding a member again leaves
  it where it is: a list without duplicates, extended at the end.
\<close>

definition Set_add :: "'k list \<Rightarrow> 'k \<Rightarrow> 'k list" where
  "Set_add s x = (if x \<in> set s then s else s @ [x])"

definition new_Set :: "'k list \<Rightarrow> 'k list" where
  "new_Set xs = foldl Set_add [] xs"

definition allOperations :: "('a, 'v, 'x, 'w) layer list \<Rightarrow> string list" where
  "allOperations layers = new_Set (foldl (\<lambda>acc layer. acc @ own_keys layer) [] layers)"

subsection \<open>Propagation (lines 36 to 38)\<close>

text \<open>
  \<^verbatim>\<open>pendingGenerators.map(gen => gen.next(result))\<close>: every pending generator is sent
  the result, in the order of the list. Each call runs the first stretch of the resumed
  handler and hands back its promise; nothing is awaited in between.
\<close>

primrec issue ::
  "'v option \<Rightarrow> (nat \<times> ('v, 'x, 'w) gen) list \<Rightarrow> 'w
    \<Rightarrow> (nat \<times> ('v option \<times> bool \<times> ('v, 'x, 'w) gen, 'x, 'w) promise) list \<times> 'w" where
  "issue result [] w = ([], w)"
| "issue result (g # gs) w =
     (case start (gen_next (snd g) result) w of
        (p, w') \<Rightarrow>
          (case issue result gs w' of
             (ps, w'') \<Rightarrow> ((fst g, p) # ps, w'')))"

text \<open>
  The promises that are settled when \<^verbatim>\<open>Promise.all\<close> receives them: it is told of
  them in the order of the list. The others are still running, or will never settle.
\<close>

fun observe ::
  "(nat \<times> ('v option \<times> bool \<times> 'g, 'x, 'w) promise) list \<Rightarrow> ('v, 'x) event list" where
  "observe [] = []"
| "observe ((j, Fulfils r) # ps) = Settle j (Fulfilled (fst r) (fst (snd r))) # observe ps"
| "observe ((j, Rejects x) # ps) = Settle j (Rejected x) # observe ps"
| "observe ((j, p) # ps) = observe ps"

fun unsettled ::
  "(nat \<times> ('r, 'x, 'w) promise) list \<Rightarrow> (nat \<times> ('r, 'x, 'w) promise) list" where
  "unsettled [] = []"
| "unsettled ((j, Fulfils r) # ps) = unsettled ps"
| "unsettled ((j, Rejects x) # ps) = unsettled ps"
| "unsettled ((j, p) # ps) = (j, p) # unsettled ps"

text \<open>The first rejection of a resumption in a record.\<close>

fun first_rejection :: "('v, 'x) event list \<Rightarrow> 'x option" where
  "first_rejection [] = None"
| "first_rejection (Settle j (Rejected x) # es) = Some x"
| "first_rejection (e # es) = first_rejection es"

datatype 'x joined = All_fulfilled | First_rejected 'x | Unsettled

text \<open>
  The promises that are left when no more is said about the order in which the handlers
  run: each is run to its end, one after the other. \<^verbatim>\<open>Promise.all\<close> is rejected at
  the first rejection, fulfilled when every promise is, and stays pending otherwise.
\<close>

primrec drain ::
  "(nat \<times> ('v option \<times> bool \<times> 'g, 'x, 'w) promise) list \<Rightarrow> 'w
    \<Rightarrow> 'x joined \<times> ('v, 'x) event list \<times> 'w" where
  "drain [] w = (All_fulfilled, [], w)"
| "drain (jp # ps) w =
     (case run (snd jp) w of
        (Thrown x, w') \<Rightarrow> (First_rejected x, [Settle (fst jp) (Rejected x)], w')
      | (Value r, w') \<Rightarrow>
          (case drain ps w' of
             (jd, es, w'') \<Rightarrow> (jd, Settle (fst jp) (Fulfilled (fst r) (fst (snd r))) # es, w''))
      | (Hangs, w') \<Rightarrow>
          (case drain ps w' of
             (First_rejected x, es, w'') \<Rightarrow> (First_rejected x, es, w'')
           | (jd, es, w'') \<Rightarrow> (Unsettled, es, w'')))"

text \<open>
  The handlers that were resumed run concurrently: after its first stretch, each goes on
  when what it awaits allows, and the engine has no say in the order. That order is the
  schedule, a parameter of the call: its entry \<open>k\<close> lets the \<open>k\<close>-th of the promises
  that are not settled yet run its next stretch (an entry that names no promise, or one
  that will never settle, lets nothing run). A promise that is fulfilled leaves the list;
  the first that is rejected rejects \<^verbatim>\<open>Promise.all\<close>, and with it the call. When the
  schedule is used up the promises that are left are drained.
\<close>

fun follow ::
  "nat list \<Rightarrow> (nat \<times> ('v option \<times> bool \<times> 'g, 'x, 'w) promise) list \<Rightarrow> 'w
    \<Rightarrow> 'x joined \<times> ('v, 'x) event list \<times> 'w" where
  "follow [] ps w = drain ps w"
| "follow (k # sched) ps w =
     (if k < length ps then
        (case snd (ps ! k) of
           Then eff nxt \<Rightarrow>
             (case nxt w of
                Rejects x \<Rightarrow> (First_rejected x, [Settle (fst (ps ! k)) (Rejected x)], eff w)
              | Fulfils r \<Rightarrow>
                  (case follow sched (take k ps @ drop (Suc k) ps) (eff w) of
                     (jd, es, w') \<Rightarrow>
                       (jd, Settle (fst (ps ! k)) (Fulfilled (fst r) (fst (snd r))) # es, w'))
              | p' \<Rightarrow> follow sched (ps[k := (fst (ps ! k), p')]) (eff w))
         | _ \<Rightarrow> follow sched ps w)
      else follow sched ps w)"

text \<open>
  Lines 36 to 38 as a whole: the calls of \<^verbatim>\<open>next\<close>, then \<^verbatim>\<open>Promise.all\<close> over their
  promises. A promise that is rejected when \<^verbatim>\<open>Promise.all\<close> receives it decides at
  once; otherwise the schedule does.
\<close>

definition propagate ::
  "nat list \<Rightarrow> 'v option \<Rightarrow> (nat \<times> ('v, 'x, 'w) gen) list \<Rightarrow> 'w
    \<Rightarrow> 'x joined \<times> ('v, 'x) event list \<times> 'w" where
  "propagate sched result pending w =
     (case issue result pending w of
        (ps, w1) \<Rightarrow>
          (let calls = map (\<lambda>g. Resume (fst g) result) pending;
               early = observe ps
           in case first_rejection early of
                Some x \<Rightarrow> (First_rejected x, calls @ early, w1)
              | None \<Rightarrow>
                  (case follow sched (unsettled ps) w1 of
                     (jd, es, w2) \<Rightarrow> (jd, calls @ early @ es, w2))))"

subsection \<open>One round of the loop (lines 18 to 62)\<close>

datatype ('s, 'r) flow = Continue 's | Stop 'r 's

text \<open>
  The first drive of line 29 is awaited with nothing else of the call running: the
  handlers before it are suspended at their \<^verbatim>\<open>yield\<close>.
\<close>

definition visit ::
  "string \<Rightarrow> 'a list \<Rightarrow> nat list \<Rightarrow> nat \<Rightarrow> ('a, 'v, 'x, 'w) layer \<Rightarrow> ('v, 'x, 'w) call_state
    \<Rightarrow> (('v, 'x, 'w) call_state, ('v, 'x) outcome) flow" where
  "visit op args sched i layer st =
     (case getprop layer op of
        None \<Rightarrow> Continue st
      | Some handler \<Rightarrow>
          (let st1 = st\<lparr>attemptedLayers := attemptedLayers st @ [toString layer]\<rparr>;
               gen = handler args
           in case run (gen_next gen None) (world st1) of
                (Thrown x, w') \<Rightarrow>
                  Stop (Throws (Raised x))
                    (st1\<lparr>actions := actions st1 @ [Instantiate i, Drive i (Rejected x)],
                         world := w'\<rparr>)
              | (Hangs, w') \<Rightarrow>
                  Stop Never_settles
                    (st1\<lparr>actions := actions st1 @ [Instantiate i, Drive i Pending_forever],
                         world := w'\<rparr>)
              | (Value (result, done, gen'), w') \<Rightarrow>
                  (let st2 = st1\<lparr>actions :=
                                   actions st1 @ [Instantiate i, Drive i (Fulfilled result done)],
                                 world := w'\<rparr>
                   in if done then
                        (if result \<noteq> None then
                           (case propagate sched result (pendingGenerators st2) (world st2) of
                              (jd, es, w'') \<Rightarrow>
                                (let st3 = st2\<lparr>actions := actions st2 @ es, world := w''\<rparr>
                                 in case jd of
                                      First_rejected x \<Rightarrow> Stop (Throws (Raised x)) st3
                                    | Unsettled \<Rightarrow> Stop Never_settles st3
                                    | All_fulfilled \<Rightarrow> Stop (Returns True result) st3))
                         else Continue st2)
                      else if result = None then
                        Continue (st2\<lparr>pendingGenerators :=
                                         pendingGenerators st2 @ [(i, gen')]\<rparr>)
                      else Stop (Returns False result) st2)))"

subsection \<open>The loop and the composed operation (lines 13 to 75)\<close>

fun join :: "string \<Rightarrow> string list \<Rightarrow> string" where
  "join sep [] = []"
| "join sep [x] = x"
| "join sep (x # y # ys) = x @ sep @ join sep (y # ys)"

definition unhandled :: "string \<Rightarrow> string list \<Rightarrow> string" where
  "unhandled op attempted =
     ''operation was not handled by any configured layers: '' @ op @
     '' (attempted layers: '' @ join '', '' attempted @ '')''"

fun walk ::
  "string \<Rightarrow> 'a list \<Rightarrow> nat list \<Rightarrow> nat \<Rightarrow> ('a, 'v, 'x, 'w) layer list
    \<Rightarrow> ('v, 'x, 'w) call_state \<Rightarrow> ('v, 'x) outcome \<times> ('v, 'x, 'w) call_state" where
  "walk op args sched i [] st = (Throws (Error (unhandled op (attemptedLayers st))), st)"
| "walk op args sched i (layer # rest) st =
     (case visit op args sched i layer st of
        Continue st' \<Rightarrow> walk op args sched (Suc i) rest st'
      | Stop r st' \<Rightarrow> (r, st'))"

text \<open>
  A call of the composed operation: the layers, the operation, the arguments, the
  schedule of the resumed handlers and the outside state at the call.
\<close>

definition DB_op ::
  "('a, 'v, 'x, 'w) layer list \<Rightarrow> string \<Rightarrow> 'a list \<Rightarrow> nat list \<Rightarrow> 'w
    \<Rightarrow> ('v, 'x) outcome \<times> ('v, 'x, 'w) call_state" where
  "DB_op layers op args sched w =
     walk op args sched 0 layers
       \<lparr>attemptedLayers = [], pendingGenerators = [], actions = [], world = w\<rparr>"

subsection \<open>The composed object (lines 10 to 13, 76 and 78)\<close>

text \<open>
  \<^verbatim>\<open>DB\<close> is a plain object, \<^verbatim>\<open>{}\<close>. Such an object lists its own string keys with
  the array indices first, in ascending numeric order, and the other keys after them, in
  the order in which they were created. A key is an array index when it is the decimal
  numeral of a number below \<open>2\<^sup>3\<^sup>2 - 1\<close>, written without a leading zero.
\<close>

definition digit :: "char \<Rightarrow> nat option" where
  "digit c =
     map_of [(CHR ''0'', 0), (CHR ''1'', 1), (CHR ''2'', 2), (CHR ''3'', 3), (CHR ''4'', 4),
             (CHR ''5'', 5), (CHR ''6'', 6), (CHR ''7'', 7), (CHR ''8'', 8), (CHR ''9'', 9)] c"

fun decimal :: "string \<Rightarrow> nat \<Rightarrow> nat option" where
  "decimal [] n = Some n"
| "decimal (c # cs) n = (case digit c of None \<Rightarrow> None | Some d \<Rightarrow> decimal cs (10 * n + d))"

definition array_index :: "string \<Rightarrow> nat option" where
  "array_index k =
     (case k of
        [] \<Rightarrow> None
      | c # cs \<Rightarrow>
          if c = CHR ''0'' \<and> cs \<noteq> [] then None
          else (case decimal k 0 of
                  None \<Rightarrow> None
                | Some n \<Rightarrow> if n < 4294967295 then Some n else None))"

text \<open>
  The object: its own enumerable string keys with their values, in the order in which
  the object lists them, and whether its prototype is still \<^verbatim>\<open>Object.prototype\<close> or has
  been replaced by one of the composed functions (see \<open>obj_put\<close>).
\<close>

record 'f object =
  own :: "(string \<times> 'f) list"
  proto_function :: bool

text \<open>\<open>insert_index\<close> puts a new array index at its place among the array indices.\<close>

fun insert_index :: "nat \<Rightarrow> string \<Rightarrow> 'f \<Rightarrow> (string \<times> 'f) list \<Rightarrow> (string \<times> 'f) list" where
  "insert_index n k f [] = [(k, f)]"
| "insert_index n k f (kv # obj) =
     (case array_index (fst kv) of
        Some m \<Rightarrow> if m < n then kv # insert_index n k f obj else (k, f) # kv # obj
      | None \<Rightarrow> (k, f) # kv # obj)"

text \<open>
  The assignment \<^verbatim>\<open>DB[op] = f\<close>, where \<^verbatim>\<open>f\<close> is an async arrow function and the module
  is not in strict mode; \<open>None\<close> is a \<^verbatim>\<open>TypeError\<close> thrown by the assignment.
  \<^item> A key the object has keeps its place and takes the new value.
  \<^item> The key \<^verbatim>\<open>__proto__\<close> is not created: the assignment goes to the setter that the
    object inherits from \<^verbatim>\<open>Object.prototype\<close>, which makes \<^verbatim>\<open>f\<close> the prototype of the
    object and adds no property.
  \<^item> Once the prototype is such a function, the object inherits the function's read-only
    \<^verbatim>\<open>name\<close> and \<^verbatim>\<open>length\<close> and the read-only \<^verbatim>\<open>constructor\<close> of the async functions'
    prototype, and an assignment to one of these keys is ignored; it inherits the
    accessors \<^verbatim>\<open>caller\<close> and \<^verbatim>\<open>arguments\<close> of \<^verbatim>\<open>Function.prototype\<close>, whose setter
    throws.
  \<^item> Any other key is created, at the place where the object lists it.
\<close>

definition obj_put :: "'f object \<Rightarrow> string \<Rightarrow> 'f \<Rightarrow> 'f object option" where
  "obj_put obj k f =
     (if k \<in> fst ` set (own obj) then
        Some (obj\<lparr>own := map (\<lambda>kv. if fst kv = k then (k, f) else kv) (own obj)\<rparr>)
      else if k = ''__proto__'' then Some (obj\<lparr>proto_function := True\<rparr>)
      else if proto_function obj \<and> k \<in> set [''caller'', ''arguments''] then None
      else if proto_function obj \<and> k \<in> set [''name'', ''length'', ''constructor''] then Some obj
      else
        Some (obj\<lparr>own :=
          (case array_index k of
             Some n \<Rightarrow> insert_index n k f (own obj)
           | None \<Rightarrow> own obj @ [(k, f)])\<rparr>))"

text \<open>\<^verbatim>\<open>Object.keys\<close> of such an object.\<close>

definition Object_keys :: "'f object \<Rightarrow> string list" where
  "Object_keys obj = map fst (own obj)"

text \<open>
  Lines 12 to 76, \<^verbatim>\<open>allOperations.forEach(op => { DB[op] = ... })\<close>: the operations are
  assigned in the order of the set; an assignment that throws ends the loop.
\<close>

fun forEach_assign :: "(string \<Rightarrow> 'f) \<Rightarrow> string list \<Rightarrow> 'f object \<Rightarrow> 'f object option" where
  "forEach_assign f [] DB = Some DB"
| "forEach_assign f (op # ops) DB =
     (case obj_put DB op (f op) of
        None \<Rightarrow> None
      | Some DB' \<Rightarrow> forEach_assign f ops DB')"

subsection \<open>The entry point (lines 1 to 4 and 10 to 78)\<close>

text \<open>
  What the exported function can be applied to: an array of layers, a single object that
  is not an array, or anything else (\<^verbatim>\<open>undefined\<close>, \<^verbatim>\<open>null\<close>, a primitive).
\<close>

datatype 'l jsarg = Array "'l list" | Object 'l | Other

type_synonym ('a, 'v, 'x, 'w) composed =
  "('a list \<Rightarrow> nat list \<Rightarrow> 'w \<Rightarrow> ('v, 'x) outcome \<times> ('v, 'x, 'w) call_state) object"

definition scaly ::
  "('a, 'v, 'x, 'w) layer jsarg \<Rightarrow> 'x failure + ('a, 'v, 'x, 'w) composed" where
  "scaly layers =
     (case layers of
        Array ls \<Rightarrow>
          (case forEach_assign (DB_op ls) (allOperations ls) \<lparr>own = [], proto_function = False\<rparr> of
             None \<Rightarrow> Inl Setter_TypeError
           | Some DB \<Rightarrow> Inr DB)
      | _ \<Rightarrow> Inl (TypeError ''layers must be an array''))"

text \<open>
  A call with a list of arguments: the arrow function has the one parameter
  \<^verbatim>\<open>layers\<close>, bound to the first argument (\<^verbatim>\<open>undefined\<close> when there is none); further
  arguments are ignored.
\<close>

definition scaly_call ::
  "('a, 'v, 'x, 'w) layer jsarg list \<Rightarrow> 'x failure + ('a, 'v, 'x, 'w) composed" where
  "scaly_call arguments = scaly (case arguments of [] \<Rightarrow> Other | a # _ \<Rightarrow> a)"

section \<open>Notions used in the statements\<close>

text \<open>Line 19: a layer implements an operation when \<^verbatim>\<open>layer[op]\<close> is not falsy.\<close>

definition implements :: "('a, 'v, 'x, 'w) layer \<Rightarrow> string \<Rightarrow> bool" where
  "implements layer op = (getprop layer op \<noteq> None)"

text \<open>The positions of the implementing layers, in the order of the layer array.\<close>

definition implementing :: "string \<Rightarrow> ('a, 'v, 'x, 'w) layer list \<Rightarrow> nat list" where
  "implementing op layers = filter (\<lambda>i. implements (layers ! i) op) [0..<length layers]"

text \<open>The layers whose handler was instantiated, in the order of the record.\<close>

fun invoked :: "('v, 'x) event list \<Rightarrow> nat list" where
  "invoked [] = []"
| "invoked (Instantiate i # es) = i # invoked es"
| "invoked (e # es) = invoked es"

text \<open>The resumptions: which layer's generator, and the value sent.\<close>

fun resumed :: "('v, 'x) event list \<Rightarrow> (nat \<times> 'v option) list" where
  "resumed [] = []"
| "resumed (Resume i r # es) = (i, r) # resumed es"
| "resumed (e # es) = resumed es"

text \<open>The layers whose first drive suspended without payload (case c of the protocol).\<close>

fun requesting :: "('v, 'x) event list \<Rightarrow> nat list" where
  "requesting [] = []"
| "requesting (Drive i (Fulfilled None False) # es) = i # requesting es"
| "requesting (e # es) = requesting es"

text \<open>The layers of which a resumption has settled, in the order of the record.\<close>

fun settling :: "('v, 'x) event list \<Rightarrow> nat list" where
  "settling [] = []"
| "settling (Settle j s # es) = j # settling es"
| "settling (e # es) = settling es"

text \<open>
  The actions after which the loop goes on: an instantiation, and a first drive fulfilled
  with \<^verbatim>\<open>undefined\<close> (returned or yielded).
\<close>

fun quiet :: "('v, 'x) event \<Rightarrow> bool" where
  "quiet (Instantiate i) = True"
| "quiet (Drive i (Fulfilled None d)) = True"
| "quiet e = False"

text \<open>The state at the head of the loop, when the layers \<open>pre\<close> have been gone through.\<close>

definition head_inv ::
  "string \<Rightarrow> ('a, 'v, 'x, 'w) layer list \<Rightarrow> ('v, 'x, 'w) call_state \<Rightarrow> bool" where
  "head_inv op pre st \<longleftrightarrow>
     invoked (actions st) = implementing op pre \<and>
     attemptedLayers st = map toString (filter (\<lambda>l. implements l op) pre) \<and>
     list_all quiet (actions st) \<and>
     map fst (pendingGenerators st) = requesting (actions st) \<and>
     distinct (requesting (actions st)) \<and>
     (\<forall>j s. Drive j s \<in> set (actions st) \<longrightarrow> j \<in> set (implementing op pre)) \<and>
     (\<forall>j s s'. Drive j s \<in> set (actions st) \<longrightarrow> Drive j s' \<in> set (actions st) \<longrightarrow> s = s')"

text \<open>
  What the join of the resumptions of the layers \<open>pend\<close> leaves in the record, and
  what it makes of the call: rejected at the first rejection; fulfilled when every
  resumption is; pending for ever when none is rejected and one never settles. No
  resumption settles twice.
\<close>

definition joined_by ::
  "nat list \<Rightarrow> ('v, 'x) event list \<Rightarrow> 'x joined \<Rightarrow> bool" where
  "joined_by pend es jd \<longleftrightarrow>
     (\<forall>e \<in> set es. \<exists>j s. e = Settle j s \<and> j \<in> set pend \<and> s \<noteq> Pending_forever) \<and>
     distinct (settling es) \<and>
     (case first_rejection es of
        Some x \<Rightarrow> jd = First_rejected x
      | None \<Rightarrow>
          if \<forall>j \<in> set pend. \<exists>u d. Settle j (Fulfilled u d) \<in> set es then jd = All_fulfilled
          else jd = Unsettled \<and> (\<exists>j \<in> set pend. \<forall>s. Settle j s \<notin> set es))"

text \<open>What a round that leaves the loop has done, by the settlement of the first drive.\<close>

definition stopped_by ::
  "nat list \<Rightarrow> ('v, 'x) settled \<Rightarrow> ('v, 'x) event list \<Rightarrow> ('v, 'x) outcome \<Rightarrow> bool" where
  "stopped_by pend s es r \<longleftrightarrow>
     (case s of
        Rejected x \<Rightarrow> es = [] \<and> r = Throws (Raised x)
      | Pending_forever \<Rightarrow> es = [] \<and> r = Never_settles
      | Fulfilled None d \<Rightarrow> False
      | Fulfilled (Some u) False \<Rightarrow> es = [] \<and> r = Returns False (Some u)
      | Fulfilled (Some u) True \<Rightarrow>
          (\<exists>settles jd.
             es = map (\<lambda>j. Resume j (Some u)) pend @ settles \<and>
             joined_by pend settles jd \<and>
             r = (case jd of
                    All_fulfilled \<Rightarrow> Returns True (Some u)
                  | First_rejected x \<Rightarrow> Throws (Raised x)
                  | Unsettled \<Rightarrow> Never_settles)))"

text \<open>
  The specification's words for the set of operations: every name once, in the order of
  first occurrence.
\<close>

primrec first_seen :: "'k list \<Rightarrow> 'k list" where
  "first_seen [] = []"
| "first_seen (x # xs) = x # filter (\<lambda>y. y \<noteq> x) (first_seen xs)"

text \<open>The array indices among a list of keys, and the other keys.\<close>

definition index_keys :: "string list \<Rightarrow> string list" where
  "index_keys ks = filter (\<lambda>k. array_index k \<noteq> None) ks"

definition other_keys :: "string list \<Rightarrow> string list" where
  "other_keys ks = filter (\<lambda>k. array_index k = None) ks"

section \<open>Example layers\<close>

text \<open>
  Small layers in the manner of \<^verbatim>\<open>test.js\<close>: arguments and values are numbers,
  exceptions are strings, and the outside state is the one cell of a memory cache.
  \<open>finished\<close> is a generator that has returned: every further \<^verbatim>\<open>next\<close> is
  fulfilled with \<^verbatim>\<open>{value: undefined, done: true}\<close>.
\<close>

primcorec finished :: "('v, 'x, 'w) gen" where
  "gen_next finished = (\<lambda>r. Fulfils (None, True, finished))"

text \<open>
  The cache returns what it holds; when empty it asks for the value (\<^verbatim>\<open>yield\<close>
  without payload) and stores what it is sent.
\<close>

definition mc_getUID :: "nat list \<Rightarrow> (nat, string, nat option) gen" where
  "mc_getUID args =
     Gen (\<lambda>r. Then (\<lambda>w. w)
            (\<lambda>w. case w of
                    Some uid \<Rightarrow> Fulfils (Some uid, True, finished)
                  | None \<Rightarrow>
                      Fulfils (None, False,
                        Gen (\<lambda>r. Then (\<lambda>w. r) (\<lambda>w. Fulfils (None, True, finished))))))"

text \<open>Empties the cache and returns nothing: it opts out.\<close>

definition mc_destroySession :: "nat list \<Rightarrow> (nat, string, nat option) gen" where
  "mc_destroySession args =
     Gen (\<lambda>r. Then (\<lambda>w. None) (\<lambda>w. Fulfils (None, True, finished)))"

definition memoryCache :: "(nat, nat, string, nat option) layer" where
  "memoryCache =
     \<lparr>toString = ''mc'',
      own_keys = [''getUID'', ''destroySession''],
      getprop = map_of [(''getUID'', mc_getUID), (''destroySession'', mc_destroySession)]\<rparr>"

text \<open>The store yields the error payload \<open>0\<close> when called without a token.\<close>

definition pdb_getUID :: "nat list \<Rightarrow> (nat, string, nat option) gen" where
  "pdb_getUID args =
     Gen (\<lambda>r. case args of
            [] \<Rightarrow> Fulfils (Some 0, False, finished)
          | token # _ \<Rightarrow> Fulfils (Some token, True, finished))"

definition pdb_destroySession :: "nat list \<Rightarrow> (nat, string, nat option) gen" where
  "pdb_destroySession args = Gen (\<lambda>r. Fulfils (Some 1, True, finished))"

definition persistentDB :: "(nat, nat, string, nat option) layer" where
  "persistentDB =
     \<lparr>toString = ''pdb'',
      own_keys = [''destroySession'', ''getUID''],
      getprop = map_of [(''destroySession'', pdb_destroySession), (''getUID'', pdb_getUID)]\<rparr>"

text \<open>A cache that asks for the value and throws as soon as it is sent one.\<close>

definition flaky_getUID :: "nat list \<Rightarrow> (nat, string, nat option) gen" where
  "flaky_getUID args =
     Gen (\<lambda>r. Fulfils (None, False, Gen (\<lambda>r. Rejects ''connection lost'')))"

definition flakyCache :: "(nat, nat, string, nat option) layer" where
  "flakyCache =
     \<lparr>toString = ''flaky'',
      own_keys = [''getUID''],
      getprop = map_of [(''getUID'', flaky_getUID)]\<rparr>"

text \<open>Another one, with an exception of its own.\<close>

definition broken_getUID :: "nat list \<Rightarrow> (nat, string, nat option) gen" where
  "broken_getUID args =
     Gen (\<lambda>r. Fulfils (None, False, Gen (\<lambda>r. Rejects ''disk full'')))"

definition brokenCache :: "(nat, nat, string, nat option) layer" where
  "brokenCache =
     \<lparr>toString = ''broken'',
      own_keys = [''getUID''],
      getprop = map_of [(''getUID'', broken_getUID)]\<rparr>"

text \<open>
  A cache that asks for the value and, sent one, awaits something before it throws:
  \<^verbatim>\<open>yield; await io(); throw 'timeout'\<close>.
\<close>

definition slow_getUID :: "nat list \<Rightarrow> (nat, string, nat option) gen" where
  "slow_getUID args =
     Gen (\<lambda>r. Fulfils (None, False,
            Gen (\<lambda>r. Then (\<lambda>w. w) (\<lambda>w. Then (\<lambda>w. w) (\<lambda>w. Rejects ''timeout'')))))"

definition slowCache :: "(nat, nat, string, nat option) layer" where
  "slowCache =
     \<lparr>toString = ''slow'',
      own_keys = [''getUID''],
      getprop = map_of [(''getUID'', slow_getUID)]\<rparr>"





text \<open>
  A cache that asks for the value and, sent one, awaits a promise that never settles; a
  store whose handler throws when it is first driven.
\<close>

definition stuck_getUID :: "nat list \<Rightarrow> (nat, string, nat option) gen" where
  "stuck_getUID args = Gen (\<lambda>r. Fulfils (None, False, Gen (\<lambda>r. Never)))"

definition stuckCache :: "(nat, nat, string, nat option) layer" where
  "stuckCache =
     \<lparr>toString = ''stuck'',
      own_keys = [''getUID''],
      getprop = map_of [(''getUID'', stuck_getUID)]\<rparr>"

definition down_getUID :: "nat list \<Rightarrow> (nat, string, nat option) gen" where
  "down_getUID args = Gen (\<lambda>r. Rejects ''down'')"

definition downStore :: "(nat, nat, string, nat option) layer" where
  "downStore =
     \<lparr>toString = ''down'',
      own_keys = [''getUID''],
      getprop = map_of [(''getUID'', down_getUID)]\<rparr>"

text \<open>A layer with the one operation \<open>k\<close>.\<close>

definition single :: "string \<Rightarrow> (nat, nat, string, nat option) layer" where
  "single k = \<lparr>toString = k, own_keys = [k], getprop = map_of [(k, pdb_getUID)]\<rparr>"

section \<open>The set of operations\<close>

lemma concat_keys: "foldl (\<lambda>acc layer. acc @ own_keys layer) acc layers = acc @ concat (map own_keys layers)"
  by (induction layers arbitrary: acc) simp_all

lemma first_seen_filter: "first_seen (filter P xs) = filter P (first_seen xs)"
proof (induction xs)
  case Nil
  then show ?case by simp
next
  case (Cons a xs)
  show ?case
  proof (cases "P a")
    case True
    have "filter (\<lambda>y. y \<noteq> a) (filter P (first_seen xs)) = filter P (filter (\<lambda>y. y \<noteq> a) (first_seen xs))"
      by (simp add: conj_commute)
    with True Cons.IH show ?thesis by simp
  next
    case False
    have "filter P (filter (\<lambda>y. y \<noteq> a) (first_seen xs)) = filter P (first_seen xs)"
      unfolding filter_filter using False by (intro filter_cong) auto
    with False Cons.IH show ?thesis by simp
  qed
qed

lemma set_first_seen: "set (first_seen xs) = set xs"
  by (induction xs) auto

lemma distinct_first_seen: "distinct (first_seen xs)"
  by (induction xs) (auto simp: set_first_seen)

lemma foldl_Set_add: "foldl Set_add s xs = s @ first_seen (filter (\<lambda>x. x \<notin> set s) xs)"
proof (induction xs arbitrary: s)
  case Nil
  then show ?case by simp
next
  case (Cons x xs)
  show ?case
  proof (cases "x \<in> set s")
    case True
    then show ?thesis using Cons.IH [of s] by (simp add: Set_add_def)
  next
    case False
    have "filter (\<lambda>y. y \<notin> set (s @ [x])) xs = filter (\<lambda>y. y \<noteq> x) (filter (\<lambda>y. y \<notin> set s) xs)"
      unfolding filter_filter by (intro filter_cong) auto
    then show ?thesis using False Cons.IH [of "s @ [x]"]
      by (simp add: Set_add_def first_seen_filter)
  qed
qed

lemma new_Set_first_seen: "new_Set xs = first_seen xs"
  by (simp add: new_Set_def foldl_Set_add)

lemma allOperations_first_seen:
  "allOperations layers = first_seen (concat (map own_keys layers))"
  using concat_keys [of "[]" layers] by (simp add: allOperations_def new_Set_first_seen)

section \<open>Propagation\<close>

lemma first_rejection_append:
  "first_rejection (es @ fs) =
     (case first_rejection es of Some x \<Rightarrow> Some x | None \<Rightarrow> first_rejection fs)"
  by (induction es rule: first_rejection.induct) simp_all

lemma first_rejection_None:
  "first_rejection es = None \<longleftrightarrow> (\<forall>j x. Settle j (Rejected x) \<notin> set es)"
  by (induction es rule: first_rejection.induct) auto

lemma first_rejection_mem:
  "first_rejection es = Some x \<Longrightarrow> \<exists>j. Settle j (Rejected x) \<in> set es"
  by (induction es rule: first_rejection.induct) auto

lemma settling_append [simp]: "settling (es @ fs) = settling es @ settling fs"
  by (induction es rule: settling.induct) simp_all

lemma settling_subset:
  "\<forall>e \<in> set es. \<exists>j s. e = Settle j s \<and> j \<in> A \<and> s \<noteq> Pending_forever \<Longrightarrow> set (settling es) \<subseteq> A"
  by (induction es) auto

lemma settling_mem: "Settle j s \<in> set es \<Longrightarrow> j \<in> set (settling es)"
  by (induction es rule: settling.induct) auto

lemma joined_by_set: "set pend = set pend' \<Longrightarrow> joined_by pend es jd = joined_by pend' es jd"
  by (simp only: joined_by_def)

lemma joined_by_rejected:
  "j \<in> set pend \<Longrightarrow> joined_by pend [Settle j (Rejected x)] (First_rejected x)"
  by (simp add: joined_by_def)

lemma joined_by_fulfilled:
  assumes "joined_by pend' es jd" and "j \<notin> set pend'" and "set pend = insert j (set pend')"
  shows "joined_by pend (Settle j (Fulfilled u d) # es) jd"
proof -
  from assms(1) have ev: "\<forall>e \<in> set es. \<exists>j s. e = Settle j s \<and> j \<in> set pend' \<and> s \<noteq> Pending_forever"
    by (simp add: joined_by_def)
  then have noj: "\<And>s. Settle j s \<notin> set es"
    using assms(2) by auto
  have all: "(\<forall>i \<in> set pend. \<exists>u' d'. Settle i (Fulfilled u' d') \<in> set (Settle j (Fulfilled u d) # es)) \<longleftrightarrow>
             (\<forall>i \<in> set pend'. \<exists>u' d'. Settle i (Fulfilled u' d') \<in> set es)"
  proof -
    have "\<And>i u' d'. i \<in> set pend' \<Longrightarrow>
            Settle i (Fulfilled u' d') \<in> set (Settle j (Fulfilled u d) # es) \<longleftrightarrow>
            Settle i (Fulfilled u' d') \<in> set es"
      using assms(2) by auto
    then have "(\<forall>i \<in> set pend'. \<exists>u' d'. Settle i (Fulfilled u' d') \<in> set (Settle j (Fulfilled u d) # es)) \<longleftrightarrow>
               (\<forall>i \<in> set pend'. \<exists>u' d'. Settle i (Fulfilled u' d') \<in> set es)"
      by simp
    moreover have "\<exists>u' d'. Settle j (Fulfilled u' d') \<in> set (Settle j (Fulfilled u d) # es)"
      by auto
    ultimately show ?thesis
      unfolding assms(3) by (simp only: ball_simps) blast
  qed
  have ex: "(\<exists>i \<in> set pend'. \<forall>s. Settle i s \<notin> set es) \<Longrightarrow>
            (\<exists>i \<in> set pend. \<forall>s. Settle i s \<notin> set (Settle j (Fulfilled u d) # es))"
    using assms(2,3) by auto
  have dj: "distinct (settling (Settle j (Fulfilled u d) # es))"
    using assms(1,2) settling_subset [OF ev] by (auto simp: joined_by_def)
  show ?thesis
    unfolding joined_by_def
  proof (intro conjI)
    show "distinct (settling (Settle j (Fulfilled u d) # es))"
      by (rule dj)
    show "\<forall>e \<in> set (Settle j (Fulfilled u d) # es).
            \<exists>j s. e = Settle j s \<and> j \<in> set pend \<and> s \<noteq> Pending_forever"
      using ev assms(3) by auto
    show "case first_rejection (Settle j (Fulfilled u d) # es) of
            None \<Rightarrow>
              if \<forall>i \<in> set pend. \<exists>u' d'. Settle i (Fulfilled u' d') \<in> set (Settle j (Fulfilled u d) # es)
              then jd = All_fulfilled
              else jd = Unsettled \<and>
                (\<exists>i \<in> set pend. \<forall>s. Settle i s \<notin> set (Settle j (Fulfilled u d) # es))
          | Some x \<Rightarrow> jd = First_rejected x"
      using assms(1) ex unfolding all
      by (auto simp: joined_by_def split: option.splits if_splits)
  qed
qed

lemma joined_by_hangs:
  assumes "joined_by pend' es jd" and "j \<notin> set pend'" and "set pend = insert j (set pend')"
  shows "joined_by pend es (case jd of First_rejected x \<Rightarrow> First_rejected x | _ \<Rightarrow> Unsettled)"
proof -
  from assms(1) have ev: "\<forall>e \<in> set es. \<exists>j s. e = Settle j s \<and> j \<in> set pend' \<and> s \<noteq> Pending_forever"
    by (simp add: joined_by_def)
  then have noj: "\<forall>s. Settle j s \<notin> set es"
    using assms(2) by auto
  then have notall: "\<not> (\<forall>i \<in> set pend. \<exists>u d. Settle i (Fulfilled u d) \<in> set es)"
    using assms(3) by auto
  have ex: "\<exists>i \<in> set pend. \<forall>s. Settle i s \<notin> set es"
    using noj assms(3) by auto
  have ev': "\<forall>e \<in> set es. \<exists>j s. e = Settle j s \<and> j \<in> set pend \<and> s \<noteq> Pending_forever"
    using ev assms(3) by auto
  show ?thesis
    using assms(1) ev' notall ex
    by (auto simp: joined_by_def split: option.splits if_splits joined.splits)
qed

lemma drain_joined:
  "drain ps w = (jd, es, w') \<Longrightarrow> distinct (map fst ps) \<Longrightarrow> joined_by (map fst ps) es jd"
proof (induction ps arbitrary: w jd es w')
  case Nil
  then show ?case by (simp add: joined_by_def)
next
  case (Cons jp ps)
  obtain res w1 where r: "run (snd jp) w = (res, w1)"
    by (cases "run (snd jp) w") auto
  from Cons.prems(2) have d: "distinct (map fst ps)" and nj: "fst jp \<notin> set (map fst ps)"
    by simp_all
  have s: "set (map fst (jp # ps)) = insert (fst jp) (set (map fst ps))"
    by simp
  show ?case
  proof (cases res)
    case (Value v)
    obtain jd1 es1 w2 where dr: "drain ps w1 = (jd1, es1, w2)"
      by (cases "drain ps w1") auto
    from Cons.prems(1) r Value dr have
      "jd = jd1" "es = Settle (fst jp) (Fulfilled (fst v) (fst (snd v))) # es1"
      by simp_all
    with joined_by_fulfilled [OF Cons.IH [OF dr d] nj s] show ?thesis by simp
  next
    case (Thrown x)
    with Cons.prems(1) r have "jd = First_rejected x" "es = [Settle (fst jp) (Rejected x)]"
      by simp_all
    then show ?thesis by (simp add: joined_by_rejected)
  next
    case Hangs
    obtain jd1 es1 w2 where dr: "drain ps w1 = (jd1, es1, w2)"
      by (cases "drain ps w1") auto
    from Cons.prems(1) r Hangs dr have
      "jd = (case jd1 of First_rejected x \<Rightarrow> First_rejected x | _ \<Rightarrow> Unsettled)" "es = es1"
      by (auto split: joined.splits)
    with joined_by_hangs [OF Cons.IH [OF dr d] nj s] show ?thesis by simp
  qed
qed

lemma follow_joined:
  "follow sched ps w = (jd, es, w') \<Longrightarrow> distinct (map fst ps) \<Longrightarrow> joined_by (map fst ps) es jd"
proof (induction sched arbitrary: ps w jd es w')
  case Nil
  then show ?case by (simp add: drain_joined)
next
  case (Cons k sched)
  show ?case
  proof (cases "k < length ps")
    case False
    with Cons.prems(1) have "follow sched ps w = (jd, es, w')" by simp
    then show ?thesis using Cons.prems(2) by (rule Cons.IH)
  next
    case True
    define j where "j = fst (ps ! k)"
    have jmem: "j \<in> set (map fst ps)"
      using True by (auto simp: j_def)
    show ?thesis
    proof (cases "snd (ps ! k)")
      case (Fulfils r)
      with True Cons.prems(1) have "follow sched ps w = (jd, es, w')" by simp
      then show ?thesis using Cons.prems(2) by (rule Cons.IH)
    next
      case (Rejects x)
      with True Cons.prems(1) have "follow sched ps w = (jd, es, w')" by simp
      then show ?thesis using Cons.prems(2) by (rule Cons.IH)
    next
      case Never
      with True Cons.prems(1) have "follow sched ps w = (jd, es, w')" by simp
      then show ?thesis using Cons.prems(2) by (rule Cons.IH)
    next
      case (Then eff nxt)
      show ?thesis
      proof (cases "nxt w")
        case (Rejects x)
        with True Then Cons.prems(1) have "jd = First_rejected x" "es = [Settle j (Rejected x)]"
          by (simp_all add: j_def)
        with jmem show ?thesis by (simp add: joined_by_rejected)
      next
        case (Fulfils r)
        define ps' where "ps' = take k ps @ drop (Suc k) ps"
        obtain jd1 es1 w1 where f: "follow sched ps' (eff w) = (jd1, es1, w1)"
          by (cases "follow sched ps' (eff w)") auto
        from True Then Fulfils Cons.prems(1) f have
          jd: "jd = jd1" and es: "es = Settle j (Fulfilled (fst r) (fst (snd r))) # es1"
          by (simp_all add: j_def ps'_def)
        have split: "map fst ps = map fst (take k ps) @ j # map fst (drop (Suc k) ps)"
          using True id_take_nth_drop [of k ps] by (simp add: j_def) (metis list.simps(9) map_append)
        have m': "map fst ps' = map fst (take k ps) @ map fst (drop (Suc k) ps)"
          by (simp add: ps'_def)
        from Cons.prems(2) have d': "distinct (map fst ps')" and nj: "j \<notin> set (map fst ps')"
          unfolding m' by (subst (asm) split, simp)+
        have s: "set (map fst ps) = insert j (set (map fst ps'))"
          unfolding m' by (subst split) auto
        from joined_by_fulfilled [OF Cons.IH [OF f d'] nj s] jd es show ?thesis by simp
      next
        case Never
        have m: "map fst (ps[k := (fst (ps ! k), Never)]) = map fst ps"
          using True by (simp add: map_update list_update_same_conv)
        from True Then Never Cons.prems(1) have
          "follow sched (ps[k := (fst (ps ! k), Never)]) (eff w) = (jd, es, w')"
          by simp
        from Cons.IH [OF this] Cons.prems(2) show ?thesis by (simp only: m)
      next
        case (Then eff' nxt')
        have m: "map fst (ps[k := (fst (ps ! k), Then eff' nxt')]) = map fst ps"
          using True by (simp add: map_update list_update_same_conv)
        from True \<open>snd (ps ! k) = Then eff nxt\<close> Then Cons.prems(1) have
          "follow sched (ps[k := (fst (ps ! k), Then eff' nxt')]) (eff w) = (jd, es, w')"
          by simp
        from Cons.IH [OF this] Cons.prems(2) show ?thesis by (simp only: m)
      qed
    qed
  qed
qed

lemma issue_fst: "issue result pend w = (ps, w') \<Longrightarrow> map fst ps = map fst pend"
  by (induction pend arbitrary: ps w w') (auto split: prod.splits)

lemma unsettled_fst: "set (map fst (unsettled ps)) \<subseteq> set (map fst ps)"
  by (induction ps rule: unsettled.induct) auto

lemma unsettled_distinct: "distinct (map fst ps) \<Longrightarrow> distinct (map fst (unsettled ps))"
  using unsettled_fst by (induction ps rule: unsettled.induct) fastforce+

lemma observe_events:
  "\<forall>e \<in> set (observe ps). \<exists>j s. e = Settle j s \<and> j \<in> set (map fst ps) \<and> s \<noteq> Pending_forever"
  by (induction ps rule: observe.induct) (simp_all, blast+)

lemma observe_unsettled:
  "distinct (map fst ps) \<Longrightarrow> j \<in> set (map fst (unsettled ps)) \<Longrightarrow> Settle j s \<notin> set (observe ps)"
proof (induction ps)
  case Nil
  then show ?case by simp
next
  case (Cons ip ps)
  obtain i p where ip: "ip = (i, p)" by (cases ip)
  show ?case
  proof (cases p)
    case (Fulfils r)
    with Cons ip show ?thesis using unsettled_fst [of ps] by auto
  next
    case (Rejects x)
    with Cons ip show ?thesis using unsettled_fst [of ps] by auto
  next
    case Never
    with Cons ip show ?thesis using observe_events [of ps] by auto
  next
    case (Then eff nxt)
    with Cons ip show ?thesis using observe_events [of ps] by auto
  qed
qed

lemma observe_fulfilled:
  "first_rejection (observe ps) = None \<Longrightarrow> j \<in> set (map fst ps) \<Longrightarrow>
     j \<in> set (map fst (unsettled ps)) \<or> (\<exists>u d. Settle j (Fulfilled u d) \<in> set (observe ps))"
  by (induction ps rule: observe.induct) auto

lemma settling_iff: "j \<in> set (settling es) \<longleftrightarrow> (\<exists>s. Settle j s \<in> set es)"
  by (induction es rule: settling.induct) auto

lemma observe_settling: "set (settling (observe ps)) \<subseteq> set (map fst ps)"
  by (induction ps rule: observe.induct) auto

lemma observe_distinct: "distinct (map fst ps) \<Longrightarrow> distinct (settling (observe ps))"
  using observe_settling by (induction ps rule: observe.induct) fastforce+

lemma joined_by_events:
  "joined_by pend es jd \<Longrightarrow>
     \<forall>e \<in> set es. \<exists>j s. e = Settle j s \<and> j \<in> set pend \<and> s \<noteq> Pending_forever"
  unfolding joined_by_def by (elim conjE)

lemma joined_by_distinct: "joined_by pend es jd \<Longrightarrow> distinct (settling es)"
  unfolding joined_by_def by (elim conjE)

lemma joined_by_first:
  "joined_by pend es jd \<Longrightarrow> first_rejection es = Some x \<Longrightarrow> jd = First_rejected x"
  unfolding joined_by_def by (elim conjE) simp

lemma joined_by_all:
  "joined_by pend es jd \<Longrightarrow> first_rejection es = None \<Longrightarrow>
     \<forall>j \<in> set pend. \<exists>u d. Settle j (Fulfilled u d) \<in> set es \<Longrightarrow> jd = All_fulfilled"
  unfolding joined_by_def by (elim conjE) (simp only: option.case if_True)

lemma joined_by_some:
  "joined_by pend es jd \<Longrightarrow> first_rejection es = None \<Longrightarrow>
     \<not> (\<forall>j \<in> set pend. \<exists>u d. Settle j (Fulfilled u d) \<in> set es) \<Longrightarrow>
     jd = Unsettled \<and> (\<exists>j \<in> set pend. \<forall>s. Settle j s \<notin> set es)"
  unfolding joined_by_def by (elim conjE) (simp only: option.case if_False)

lemma joined_byI:
  assumes "\<forall>e \<in> set es. \<exists>j s. e = Settle j s \<and> j \<in> set pend \<and> s \<noteq> Pending_forever"
    and "distinct (settling es)"
    and "\<And>x. first_rejection es = Some x \<Longrightarrow> jd = First_rejected x"
    and "first_rejection es = None \<Longrightarrow>
           \<forall>j \<in> set pend. \<exists>u d. Settle j (Fulfilled u d) \<in> set es \<Longrightarrow> jd = All_fulfilled"
    and "first_rejection es = None \<Longrightarrow>
           \<not> (\<forall>j \<in> set pend. \<exists>u d. Settle j (Fulfilled u d) \<in> set es) \<Longrightarrow>
           jd = Unsettled \<and> (\<exists>j \<in> set pend. \<forall>s. Settle j s \<notin> set es)"
  shows "joined_by pend es jd"
  unfolding joined_by_def
proof (intro conjI)
  show "\<forall>e \<in> set es. \<exists>j s. e = Settle j s \<and> j \<in> set pend \<and> s \<noteq> Pending_forever"
    by (rule assms(1))
  show "distinct (settling es)"
    by (rule assms(2))
  show "case first_rejection es of
          None \<Rightarrow>
            if \<forall>j \<in> set pend. \<exists>u d. Settle j (Fulfilled u d) \<in> set es then jd = All_fulfilled
            else jd = Unsettled \<and> (\<exists>j \<in> set pend. \<forall>s. Settle j s \<notin> set es)
        | Some x \<Rightarrow> jd = First_rejected x"
  proof (cases "first_rejection es")
    case None
    show ?thesis
    proof (cases "\<forall>j \<in> set pend. \<exists>u d. Settle j (Fulfilled u d) \<in> set es")
      case True
      with assms(4) [OF None] None show ?thesis by simp
    next
      case False
      with assms(5) [OF None] None show ?thesis by simp
    qed
  next
    case (Some x)
    with assms(3) show ?thesis by simp
  qed
qed

lemma propagate_joined:
  assumes "propagate sched result pend w = (jd, es, w')" and "distinct (map fst pend)"
  shows "\<exists>settles. es = map (\<lambda>j. Resume j result) (map fst pend) @ settles \<and>
           joined_by (map fst pend) settles jd"
proof -
  obtain ps w1 where iss: "issue result pend w = (ps, w1)"
    by (cases "issue result pend w") auto
  have fst: "map fst ps = map fst pend"
    using iss by (rule issue_fst)
  have d: "distinct (map fst ps)"
    using assms(2) by (simp only: fst)
  have calls: "map (\<lambda>g. Resume (fst g) result) pend = map (\<lambda>j. Resume j result) (map fst pend)"
    by simp
  show ?thesis
  proof (cases "first_rejection (observe ps)")
    case (Some x)
    with assms(1) iss have "jd = First_rejected x"
      and "es = map (\<lambda>g. Resume (fst g) result) pend @ observe ps"
      by (simp_all add: propagate_def)
    moreover have "joined_by (map fst ps) (observe ps) (First_rejected x)"
      using Some observe_events [of ps] observe_distinct [OF d] by (intro joined_byI) simp_all
    then have "joined_by (map fst pend) (observe ps) (First_rejected x)"
      by (simp only: fst)
    ultimately show ?thesis by (simp only: calls) blast
  next
    case None
    obtain jd1 es1 w2 where f: "follow sched (unsettled ps) w1 = (jd1, es1, w2)"
      by (cases "follow sched (unsettled ps) w1") auto
    with assms(1) iss None have jd: "jd = jd1"
      and es: "es = map (\<lambda>g. Resume (fst g) result) pend @ observe ps @ es1"
      by (simp_all add: propagate_def)
    have j1: "joined_by (map fst (unsettled ps)) es1 jd"
      using follow_joined [OF f unsettled_distinct [OF d]] jd by simp
    from j1 have ev1: "\<forall>e \<in> set es1. \<exists>j s. e = Settle j s \<and> j \<in> set (map fst (unsettled ps)) \<and> s \<noteq> Pending_forever"
      by (simp add: joined_by_def)
    have fr: "first_rejection (observe ps @ es1) = first_rejection es1"
      using None by (simp add: first_rejection_append)
    have ev: "\<forall>e \<in> set (observe ps @ es1). \<exists>j s. e = Settle j s \<and> j \<in> set (map fst ps) \<and> s \<noteq> Pending_forever"
      using observe_events [of ps] ev1 unsettled_fst [of ps] by (simp only: set_append ball_Un) blast
    have "joined_by (map fst ps) (observe ps @ es1) jd"
    proof (rule joined_byI)
      show "\<forall>e \<in> set (observe ps @ es1). \<exists>j s. e = Settle j s \<and> j \<in> set (map fst ps) \<and> s \<noteq> Pending_forever"
        by (rule ev)
      show "distinct (settling (observe ps @ es1))"
      proof -
        have "set (settling es1) \<subseteq> set (map fst (unsettled ps))"
          using ev1 by (rule settling_subset)
        moreover have "\<And>j. j \<in> set (map fst (unsettled ps)) \<Longrightarrow> j \<notin> set (settling (observe ps))"
          using observe_unsettled [OF d] by (simp only: settling_iff) blast
        ultimately have "set (settling (observe ps)) \<inter> set (settling es1) = {}"
          by blast
        with observe_distinct [OF d] joined_by_distinct [OF j1] show ?thesis
          by simp
      qed
      show "jd = First_rejected x" if "first_rejection (observe ps @ es1) = Some x" for x
        using that joined_by_first [OF j1] by (simp only: fr)
      show "jd = All_fulfilled"
        if "first_rejection (observe ps @ es1) = None"
          and all: "\<forall>j \<in> set (map fst ps). \<exists>u d. Settle j (Fulfilled u d) \<in> set (observe ps @ es1)"
      proof (rule joined_by_all [OF j1])
        show "first_rejection es1 = None" using that(1) by (simp only: fr)
        show "\<forall>j \<in> set (map fst (unsettled ps)). \<exists>u d. Settle j (Fulfilled u d) \<in> set es1"
        proof
          fix j assume j: "j \<in> set (map fst (unsettled ps))"
          then have "j \<in> set (map fst ps)" using unsettled_fst [of ps] by blast
          with all obtain u d where "Settle j (Fulfilled u d) \<in> set (observe ps @ es1)" by blast
          moreover have "Settle j (Fulfilled u d) \<notin> set (observe ps)"
            using observe_unsettled [OF d j] .
          ultimately show "\<exists>u d. Settle j (Fulfilled u d) \<in> set es1" by auto
        qed
      qed
      show "jd = Unsettled \<and> (\<exists>j \<in> set (map fst ps). \<forall>s. Settle j s \<notin> set (observe ps @ es1))"
        if n: "first_rejection (observe ps @ es1) = None"
          and nall: "\<not> (\<forall>j \<in> set (map fst ps). \<exists>u d. Settle j (Fulfilled u d) \<in> set (observe ps @ es1))"
      proof -
        have n1: "first_rejection es1 = None" using n by (simp only: fr)
        have "\<not> (\<forall>j \<in> set (map fst (unsettled ps)). \<exists>u d. Settle j (Fulfilled u d) \<in> set es1)"
        proof
          assume a: "\<forall>j \<in> set (map fst (unsettled ps)). \<exists>u d. Settle j (Fulfilled u d) \<in> set es1"
          have "\<forall>j \<in> set (map fst ps). \<exists>u d. Settle j (Fulfilled u d) \<in> set (observe ps @ es1)"
          proof
            fix j assume "j \<in> set (map fst ps)"
            from observe_fulfilled [OF None this]
            show "\<exists>u d. Settle j (Fulfilled u d) \<in> set (observe ps @ es1)"
            proof
              assume "j \<in> set (map fst (unsettled ps))"
              with a obtain u d where "Settle j (Fulfilled u d) \<in> set es1" by blast
              then show ?thesis by auto
            next
              assume "\<exists>u d. Settle j (Fulfilled u d) \<in> set (observe ps)"
              then show ?thesis by auto
            qed
          qed
          with nall show False by blast
        qed
        from joined_by_some [OF j1 n1 this] obtain j where u: "jd = Unsettled"
          and j: "j \<in> set (map fst (unsettled ps))" and n1: "\<forall>s. Settle j s \<notin> set es1"
          by blast
        have n0: "\<forall>s. Settle j s \<notin> set (observe ps)"
          using observe_unsettled [OF d j] by blast
        have jm: "j \<in> set (map fst ps)"
          using j unsettled_fst [of ps] by blast
        from n0 n1 have "\<forall>s. Settle j s \<notin> set (observe ps @ es1)" by simp
        with jm u show ?thesis by blast
      qed
    qed
    then show ?thesis using es by (simp only: calls fst) blast
  qed
qed

lemma resumed_calls: "resumed (map (\<lambda>j. Resume j u) pend) = map (\<lambda>j. (j, u)) pend"
  by (induction pend) auto

lemma first_rejection_calls: "first_rejection (map (\<lambda>j. Resume j u) pend) = None"
  by (induction pend) auto

lemma settle_once:
  "distinct (settling es) \<Longrightarrow> Settle j s \<in> set es \<Longrightarrow> Settle j s' \<in> set es \<Longrightarrow> s = s'"
proof (induction es rule: settling.induct)
  case 1
  then show ?case by simp
next
  case (2 i t es)
  then show ?case by (auto dest: settling_mem)
qed auto

lemma joined_by_cases:
  assumes "joined_by pend es jd"
  obtains (rejected) x where "jd = First_rejected x" "first_rejection es = Some x"
  | (fulfilled) "jd = All_fulfilled" "first_rejection es = None"
      "\<forall>j \<in> set pend. \<exists>u d. Settle j (Fulfilled u d) \<in> set es"
  | (unsettled) "jd = Unsettled" "first_rejection es = None"
      "\<exists>j \<in> set pend. \<forall>s. Settle j s \<notin> set es"
proof (cases "first_rejection es")
  case (Some x)
  with joined_by_first [OF assms] rejected show ?thesis by blast
next
  case None
  show ?thesis
  proof (cases "\<forall>j \<in> set pend. \<exists>u d. Settle j (Fulfilled u d) \<in> set es")
    case True
    with joined_by_all [OF assms None] None fulfilled show ?thesis by blast
  next
    case False
    with joined_by_some [OF assms None] None unsettled show ?thesis by blast
  qed
qed

lemma joined_by_fulfilled_iff:
  assumes "joined_by pend es jd"
  shows "jd = All_fulfilled \<longleftrightarrow> (\<forall>j \<in> set pend. \<exists>u d. Settle j (Fulfilled u d) \<in> set es)"
proof
  assume "jd = All_fulfilled"
  with assms show "\<forall>j \<in> set pend. \<exists>u d. Settle j (Fulfilled u d) \<in> set es"
    by (cases rule: joined_by_cases) simp_all
next
  assume all: "\<forall>j \<in> set pend. \<exists>u d. Settle j (Fulfilled u d) \<in> set es"
  have "first_rejection es = None"
  proof (rule ccontr)
    assume "first_rejection es \<noteq> None"
    then obtain x where "first_rejection es = Some x" by auto
    then obtain j where r: "Settle j (Rejected x) \<in> set es"
      by (auto dest: first_rejection_mem)
    with joined_by_events [OF assms] have "j \<in> set pend" by auto
    with all obtain u d where "Settle j (Fulfilled u d) \<in> set es" by blast
    from settle_once [OF joined_by_distinct [OF assms] r this] show False by simp
  qed
  from joined_by_all [OF assms this all] show "jd = All_fulfilled" .
qed

section \<open>The loop\<close>

lemma invoked_append [simp]: "invoked (es @ fs) = invoked es @ invoked fs"
  by (induction es rule: invoked.induct) simp_all

lemma resumed_append [simp]: "resumed (es @ fs) = resumed es @ resumed fs"
  by (induction es rule: resumed.induct) simp_all

lemma requesting_append [simp]: "requesting (es @ fs) = requesting es @ requesting fs"
  by (induction es rule: requesting.induct) simp_all

lemma implementing_snoc:
  "implementing op (pre @ [l]) = implementing op pre @ (if implements l op then [length pre] else [])"
proof -
  have "filter (\<lambda>i. implements ((pre @ [l]) ! i) op) [0..<length pre] =
        filter (\<lambda>i. implements (pre ! i) op) [0..<length pre]"
    by (intro filter_cong) (auto simp: nth_append)
  then show ?thesis by (simp add: implementing_def)
qed

lemma implementing_bound: "j \<in> set (implementing op pre) \<Longrightarrow> j < length pre"
  by (simp add: implementing_def)

lemma set_requesting: "set (requesting es) = {j. Drive j (Fulfilled None False) \<in> set es}"
  by (induction es rule: requesting.induct) auto

lemma head_inv_init:
  "head_inv op [] \<lparr>attemptedLayers = [], pendingGenerators = [], actions = [], world = w\<rparr>"
  by (simp add: head_inv_def implementing_def)

lemma visit_skip: "getprop l op = None \<Longrightarrow> visit op args sched i l st = Continue st"
  by (simp add: visit_def)

lemma visit_Continue:
  assumes "visit op args sched (length pre) l st = Continue st'" and "head_inv op pre st"
  shows "head_inv op (pre @ [l]) st'"
proof (cases "getprop l op")
  case None
  with assms show ?thesis
    by (simp add: visit_skip head_inv_def implementing_snoc implements_def)
next
  case (Some h)
  obtain res w' where nx: "run (gen_next (h args) None) (world st) = (res, w')"
    by (cases "run (gen_next (h args) None) (world st)") auto
  from assms(1) Some nx obtain d g where res: "res = Value (None, d, g)"
    by (cases res)
      (auto simp: visit_def Let_def split: if_splits prod.splits joined.splits)
  from assms(1) Some nx res have
    a: "actions st' = actions st @ [Instantiate (length pre), Drive (length pre) (Fulfilled None d)]" and
    t: "attemptedLayers st' = attemptedLayers st @ [toString l]" and
    p: "pendingGenerators st' = pendingGenerators st @ (if d then [] else [(length pre, g)])"
    by (auto simp: visit_def Let_def split: if_splits)
  have fresh: "\<And>s. Drive (length pre) s \<notin> set (actions st)"
    using assms(2) implementing_bound [of "length pre" op pre] by (auto simp: head_inv_def)
  then have fresh': "length pre \<notin> set (requesting (actions st))"
    by (simp add: set_requesting)
  show ?thesis
    unfolding head_inv_def
  proof (intro conjI)
    show "invoked (actions st') = implementing op (pre @ [l])"
      using assms(2) Some by (simp add: a head_inv_def implementing_snoc implements_def)
    show "attemptedLayers st' = map toString (filter (\<lambda>l. implements l op) (pre @ [l]))"
      using assms(2) Some by (simp add: t head_inv_def implements_def)
    show "list_all quiet (actions st')"
      using assms(2) by (simp add: a head_inv_def)
    show "map fst (pendingGenerators st') = requesting (actions st')"
      using assms(2) by (cases d) (simp_all add: a p head_inv_def)
    show "distinct (requesting (actions st'))"
      using assms(2) fresh' by (cases d) (simp_all add: a head_inv_def)
    show "\<forall>j s. Drive j s \<in> set (actions st') \<longrightarrow> j \<in> set (implementing op (pre @ [l]))"
      using assms(2) Some by (auto simp: a head_inv_def implementing_snoc implements_def)
    show "\<forall>j s s'. Drive j s \<in> set (actions st') \<longrightarrow> Drive j s' \<in> set (actions st') \<longrightarrow> s = s'"
      using assms(2) fresh by (auto simp: a head_inv_def)
  qed
qed

lemma visit_Stop:
  assumes "visit op args sched i l st = Stop r st'"
    and "distinct (map fst (pendingGenerators st))"
  shows "\<exists>s es. implements l op \<and>
           actions st' = actions st @ [Instantiate i, Drive i s] @ es \<and>
           attemptedLayers st' = attemptedLayers st @ [toString l] \<and>
           pendingGenerators st' = pendingGenerators st \<and>
           stopped_by (map fst (pendingGenerators st)) s es r"
proof (cases "getprop l op")
  case None
  with assms show ?thesis by (simp add: visit_skip)
next
  case (Some h)
  obtain res w' where nx: "run (gen_next (h args) None) (world st) = (res, w')"
    by (cases "run (gen_next (h args) None) (world st)") auto
  show ?thesis
  proof (cases res)
    case (Value v)
    obtain u d g where v: "v = (u, d, g)" by (cases v) auto
    show ?thesis
    proof (cases "d \<and> u \<noteq> None")
      case True
      then obtain y where u: "u = Some y" and d: d by auto
      obtain jd es w'' where pr: "propagate sched (Some y) (pendingGenerators st) w' = (jd, es, w'')"
        by (cases "propagate sched (Some y) (pendingGenerators st) w'") auto
      from assms(1) Some nx Value v u d pr have
        "actions st' = actions st @ [Instantiate i, Drive i (Fulfilled (Some y) True)] @ es"
        "attemptedLayers st' = attemptedLayers st @ [toString l]"
        "pendingGenerators st' = pendingGenerators st"
        "r = (case jd of
                All_fulfilled \<Rightarrow> Returns True (Some y)
              | First_rejected x \<Rightarrow> Throws (Raised x)
              | Unsettled \<Rightarrow> Never_settles)"
        by (auto simp: visit_def Let_def split: joined.splits)
      moreover from propagate_joined [OF pr assms(2)]
      have "stopped_by (map fst (pendingGenerators st)) (Fulfilled (Some y) True) es
              (case jd of
                 All_fulfilled \<Rightarrow> Returns True (Some y)
               | First_rejected x \<Rightarrow> Throws (Raised x)
               | Unsettled \<Rightarrow> Never_settles)"
        unfolding stopped_by_def by (simp only: settled.case option.case bool.case) blast
      ultimately show ?thesis
        using Some by (simp only: implements_def) blast
    next
      case False
      with assms(1) Some nx Value v show ?thesis
        by (auto simp: visit_def Let_def stopped_by_def implements_def split: if_splits)
    qed
  next
    case (Thrown x)
    with assms(1) Some nx show ?thesis
      by (auto simp: visit_def Let_def stopped_by_def implements_def)
  next
    case Hangs
    with assms(1) Some nx show ?thesis
      by (auto simp: visit_def Let_def stopped_by_def implements_def)
  qed
qed

lemma walk_decompose:
  assumes "walk op args sched (length pre) ls st = (r, st')" and "head_inv op pre st"
  shows "(head_inv op (pre @ ls) st' \<and> r = Throws (Error (unhandled op (attemptedLayers st')))) \<or>
         (\<exists>pre' l ls' st0. pre @ ls = pre' @ l # ls' \<and> head_inv op pre' st0 \<and>
            visit op args sched (length pre') l st0 = Stop r st')"
  using assms
proof (induction ls arbitrary: pre st)
  case Nil
  then show ?case by auto
next
  case (Cons l ls)
  show ?case
  proof (cases "visit op args sched (length pre) l st")
    case (Continue st1)
    then have "head_inv op (pre @ [l]) st1"
      using Cons.prems(2) by (rule visit_Continue)
    moreover have "walk op args sched (length (pre @ [l])) ls st1 = (r, st')"
      using Cons.prems(1) Continue by simp
    ultimately show ?thesis
      using Cons.IH [of "pre @ [l]" st1] by simp
  next
    case (Stop r1 st1)
    with Cons.prems show ?thesis by auto
  qed
qed

lemma quiet_no_resumed: "list_all quiet es \<Longrightarrow> resumed es = []"
  by (induction es rule: resumed.induct) simp_all

lemma quiet_no_rejection: "list_all quiet es \<Longrightarrow> first_rejection es = None"
  by (induction es rule: first_rejection.induct) simp_all


lemma quiet_mem: "list_all quiet es \<Longrightarrow> e \<in> set es \<Longrightarrow> quiet e"
  by (simp add: list_all_iff)

lemma quiet_Drive: "quiet (Drive i s) \<longleftrightarrow> (\<exists>d. s = Fulfilled None d)"
  by (cases "Drive i s :: ('a, 'b) event" rule: quiet.cases) auto

lemma not_quiet_requesting: "\<not> quiet e \<Longrightarrow> requesting (e # es) = requesting es"
  by (cases e rule: quiet.cases) auto

lemma settles_only:
  "\<forall>e \<in> set es. \<exists>j s. e = Settle j s \<Longrightarrow>
     invoked es = [] \<and> requesting es = [] \<and> resumed es = []"
  by (induction es) auto

lemma calls_only:
  "invoked (map (\<lambda>j. Resume j u) pend) = [] \<and> requesting (map (\<lambda>j. Resume j u) pend) = [] \<and>
   resumed (map (\<lambda>j. Resume j u) pend) = map (\<lambda>j. (j, u)) pend \<and>
   first_rejection (map (\<lambda>j. Resume j u) pend) = None"
  by (induction pend) auto

lemma stopped_by_not_quiet: "stopped_by pend s es r \<Longrightarrow> \<not> quiet (Drive i s)"
  by (auto simp: stopped_by_def split: settled.splits option.splits bool.splits)

lemma stopped_by_resolved:
  assumes "stopped_by pend (Fulfilled (Some v) True) es r"
  obtains settles jd where "es = map (\<lambda>j. Resume j (Some v)) pend @ settles"
    and "joined_by pend settles jd"
    and "r = (case jd of
                All_fulfilled \<Rightarrow> Returns True (Some v)
              | First_rejected x \<Rightarrow> Throws (Raised x)
              | Unsettled \<Rightarrow> Never_settles)"
  using assms unfolding stopped_by_def by (simp only: settled.case option.case bool.case) blast

lemma stopped_by_other:
  assumes "stopped_by pend s es r" and "\<forall>v. s \<noteq> Fulfilled (Some v) True"
  shows "es = []"
  using assms by (auto simp: stopped_by_def split: settled.splits option.splits bool.splits)

lemma stopped_by_events:
  assumes "stopped_by pend s es r"
  shows "invoked es = [] \<and> requesting es = [] \<and>
         (\<forall>e \<in> set es. (\<exists>j u. e = Resume j u) \<or> (\<exists>j s'. e = Settle j s')) \<and>
         resumed es = (case s of Fulfilled (Some u) True \<Rightarrow> map (\<lambda>j. (j, Some u)) pend | _ \<Rightarrow> [])"
proof (cases "\<exists>v. s = Fulfilled (Some v) True")
  case True
  then obtain v where s: "s = Fulfilled (Some v) True" ..
  from assms [unfolded s] obtain settles jd where
    es: "es = map (\<lambda>j. Resume j (Some v)) pend @ settles" and j: "joined_by pend settles jd"
    by (rule stopped_by_resolved)
  from joined_by_events [OF j] have ev: "\<forall>e \<in> set settles. \<exists>j s. e = Settle j s"
    by blast
  from settles_only [OF ev] calls_only [of "Some v" pend] ev show ?thesis
    by (auto simp: es s)
next
  case False
  then have "es = []" using assms by (intro stopped_by_other) auto
  with False show ?thesis
    by (auto split: settled.splits option.splits bool.splits)
qed

lemma implementing_append:
  "implementing op (xs @ ys) = implementing op xs @ map (\<lambda>j. length xs + j) (implementing op ys)"
proof (induction ys rule: rev_induct)
  case Nil
  then show ?case by (simp add: implementing_def)
next
  case (snoc y ys)
  have "implementing op (xs @ ys @ [y]) = implementing op ((xs @ ys) @ [y])" by simp
  also have "\<dots> = implementing op (xs @ ys) @ (if implements y op then [length xs + length ys] else [])"
    by (simp only: implementing_snoc length_append)
  finally show ?case using snoc by (simp add: implementing_snoc)
qed

lemma implementing_Cons:
  "implementing op (pre @ l # rest) =
     implementing op pre @ (if implements l op then [length pre] else []) @
     map (\<lambda>j. Suc (length pre) + j) (implementing op rest)"
  using implementing_append [of op "pre @ [l]" rest] by (simp add: implementing_snoc)

lemma map_implementing:
  "map (\<lambda>i. f (layers ! i)) (implementing op layers) = map f (filter (\<lambda>l. implements l op) layers)"
proof (induction layers rule: rev_induct)
  case Nil
  then show ?case by (simp add: implementing_def)
next
  case (snoc l layers)
  have "map (\<lambda>i. f ((layers @ [l]) ! i)) (implementing op layers) =
        map (\<lambda>i. f (layers ! i)) (implementing op layers)"
    using implementing_bound [of _ op layers] by (intro map_cong) (auto simp: nth_append)
  with snoc show ?case by (simp add: implementing_snoc)
qed

lemma DB_op_cases:
  assumes "DB_op layers op args sched w = (r, st)"
  obtains
    (exhausted) "head_inv op layers st" "r = Throws (Error (unhandled op (attemptedLayers st)))"
  | (stopped) pre l rest st0 s es where
      "layers = pre @ l # rest" "head_inv op pre st0" "implements l op"
      "actions st = actions st0 @ [Instantiate (length pre), Drive (length pre) s] @ es"
      "attemptedLayers st = attemptedLayers st0 @ [toString l]"
      "pendingGenerators st = pendingGenerators st0"
      "stopped_by (requesting (actions st0)) s es r"
proof -
  have "(head_inv op layers st \<and> r = Throws (Error (unhandled op (attemptedLayers st)))) \<or>
        (\<exists>pre l rest st0. layers = pre @ l # rest \<and> head_inv op pre st0 \<and>
           visit op args sched (length pre) l st0 = Stop r st)"
    using walk_decompose [of op args sched "[]" layers
        "\<lparr>attemptedLayers = [], pendingGenerators = [], actions = [], world = w\<rparr>" r st]
      head_inv_init [of op w] assms
    by (simp add: DB_op_def)
  then show thesis
  proof (elim disjE conjE exE)
    assume "head_inv op layers st" "r = Throws (Error (unhandled op (attemptedLayers st)))"
    then show thesis by (rule exhausted)
  next
    fix pre l rest st0
    assume *: "layers = pre @ l # rest" "head_inv op pre st0"
      "visit op args sched (length pre) l st0 = Stop r st"
    from *(2) have p: "map fst (pendingGenerators st0) = requesting (actions st0)"
      and d: "distinct (requesting (actions st0))"
      by (simp_all add: head_inv_def)
    from d have "distinct (map fst (pendingGenerators st0))" by (simp only: p)
    from visit_Stop [OF *(3) this] * show thesis
      using stopped [of pre l rest st0] by (auto simp only: p)
  qed
qed

lemma stopped_facts:
  assumes "head_inv op pre st0"
    and "actions st = actions st0 @ [Instantiate (length pre), Drive (length pre) s] @ es"
    and "stopped_by pend s es r"
  shows "invoked (actions st) = implementing op pre @ [length pre]"
    and "requesting (actions st) = requesting (actions st0)"
    and "resumed (actions st) = resumed es"
    and "first_rejection (actions st) = first_rejection es"
    and "\<And>i s'. Drive i s' \<in> set (actions st) \<Longrightarrow>
           (i = length pre \<and> s' = s) \<or>
           (i < length pre \<and> quiet (Drive i s') \<and> Drive i s' \<in> set (actions st0))"
    and "\<And>j u. Resume j u \<in> set (actions st) \<Longrightarrow> Resume j u \<in> set es"
    and "\<And>j s'. Settle j s' \<in> set (actions st) \<Longrightarrow> Settle j s' \<in> set es"
proof -
  note ev = stopped_by_events [OF assms(3)]
  have nq: "\<not> quiet (Drive (length pre) s)"
    using assms(3) by (rule stopped_by_not_quiet)
  have q: "list_all quiet (actions st0)"
    using assms(1) by (simp add: head_inv_def)
  show "invoked (actions st) = implementing op pre @ [length pre]"
    using assms(1) ev by (simp add: assms(2) head_inv_def)
  show "requesting (actions st) = requesting (actions st0)"
    using ev nq by (simp add: assms(2) not_quiet_requesting)
  show "resumed (actions st) = resumed es"
    using quiet_no_resumed [OF q] by (simp add: assms(2))
  show "first_rejection (actions st) = first_rejection es"
    using quiet_no_rejection [OF q] by (simp add: assms(2) first_rejection_append)
  show "(i = length pre \<and> s' = s) \<or>
        (i < length pre \<and> quiet (Drive i s') \<and> Drive i s' \<in> set (actions st0))"
    if "Drive i s' \<in> set (actions st)" for i s'
  proof -
    from that ev
    consider "Drive i s' \<in> set (actions st0)" | "i = length pre \<and> s' = s"
      by (auto simp: assms(2))
    then show ?thesis
    proof cases
      case 1
      then have "i \<in> set (implementing op pre)"
        using assms(1) by (auto simp: head_inv_def)
      with 1 quiet_mem [OF q 1] show ?thesis
        by (auto dest: implementing_bound)
    next
      case 2
      then show ?thesis by simp
    qed
  qed
  show "Resume j u \<in> set es" if "Resume j u \<in> set (actions st)" for j u
    using that quiet_mem [OF q, of "Resume j u"] by (auto simp: assms(2))
  show "Settle j s' \<in> set es" if "Settle j s' \<in> set (actions st)" for j s'
    using that quiet_mem [OF q, of "Settle j s'"] by (auto simp: assms(2))
qed

lemma stopped_by_result:
  assumes "stopped_by pend s es r"
  shows "(\<exists>x. r = Throws (Raised x)) \<or> r = Never_settles \<or>
         (\<exists>u b. r = Returns b (Some u) \<and> s = Fulfilled (Some u) b)"
proof (cases "\<exists>v. s = Fulfilled (Some v) True")
  case True
  then obtain v where s: "s = Fulfilled (Some v) True" ..
  from assms [unfolded s] obtain settles jd where
    "r = (case jd of
            All_fulfilled \<Rightarrow> Returns True (Some v)
          | First_rejected x \<Rightarrow> Throws (Raised x)
          | Unsettled \<Rightarrow> Never_settles)"
    by (rule stopped_by_resolved)
  with s show ?thesis by (cases jd) auto
next
  case False
  with assms show ?thesis
    by (auto simp: stopped_by_def split: settled.splits option.splits bool.splits)
qed

lemma stopped_by_rejection:
  assumes "stopped_by pend s es r"
  shows "(\<forall>x. first_rejection es = Some x \<longrightarrow> r = Throws (Raised x)) \<and>
         (\<forall>x. s = Rejected x \<longrightarrow> r = Throws (Raised x)) \<and>
         (\<forall>x. r = Throws (Raised x) \<longrightarrow> s = Rejected x \<or> first_rejection es = Some x)"
proof (cases "\<exists>v. s = Fulfilled (Some v) True")
  case True
  then obtain v where s: "s = Fulfilled (Some v) True" ..
  from assms [unfolded s] obtain settles jd where
    es: "es = map (\<lambda>j. Resume j (Some v)) pend @ settles" and
    jb: "joined_by pend settles jd" and
    r: "r = (case jd of
            All_fulfilled \<Rightarrow> Returns True (Some v)
          | First_rejected x \<Rightarrow> Throws (Raised x)
          | Unsettled \<Rightarrow> Never_settles)"
    by (rule stopped_by_resolved)
  have fr: "first_rejection es = first_rejection settles"
    by (simp add: es first_rejection_append first_rejection_calls)
  from jb show ?thesis
    by (cases rule: joined_by_cases) (simp_all add: r s fr)
next
  case False
  then have "es = []" using assms by (intro stopped_by_other) auto
  with False assms show ?thesis
    by (auto simp: stopped_by_def split: settled.splits option.splits bool.splits)
qed

lemma resolved_run:
  assumes "DB_op layers op args sched w = (r, st)"
    and "Drive i (Fulfilled (Some v) True) \<in> set (actions st)"
  obtains pre l rest st0 settles jd where
    "layers = pre @ l # rest" "head_inv op pre st0" "implements l op" "i = length pre"
    "actions st = actions st0 @ [Instantiate i, Drive i (Fulfilled (Some v) True)] @
       map (\<lambda>j. Resume j (Some v)) (requesting (actions st)) @ settles"
    "joined_by (requesting (actions st)) settles jd"
    "r = (case jd of
            All_fulfilled \<Rightarrow> Returns True (Some v)
          | First_rejected x \<Rightarrow> Throws (Raised x)
          | Unsettled \<Rightarrow> Never_settles)"
    "pendingGenerators st = pendingGenerators st0"
    "requesting (actions st) = requesting (actions st0)"
    "invoked (actions st) = implementing op pre @ [i]"
    "resumed (actions st) = map (\<lambda>j. (j, Some v)) (requesting (actions st))"
    "first_rejection (actions st) = first_rejection settles"
    "\<And>j s. Settle j s \<in> set (actions st) \<longleftrightarrow> Settle j s \<in> set settles"
  using assms(1)
proof (cases rule: DB_op_cases)
  case exhausted
  then have "quiet (Drive i (Fulfilled (Some v) True))"
    using assms(2) by (auto simp: head_inv_def dest: quiet_mem)
  then show ?thesis by simp
next
  case (stopped pre l rest st0 s es)
  note f = stopped_facts [OF stopped(2,4,7)]
  from f(5) [OF assms(2)] have i: "i = length pre" and s: "s = Fulfilled (Some v) True"
    by auto
  from stopped(7) [unfolded s] obtain settles jd where
    es: "es = map (\<lambda>j. Resume j (Some v)) (requesting (actions st0)) @ settles" and
    j: "joined_by (requesting (actions st0)) settles jd" and
    r: "r = (case jd of
            All_fulfilled \<Rightarrow> Returns True (Some v)
          | First_rejected x \<Rightarrow> Throws (Raised x)
          | Unsettled \<Rightarrow> Never_settles)"
    by (rule stopped_by_resolved)
  from joined_by_events [OF j] have ev: "\<forall>e \<in> set settles. \<exists>j s. e = Settle j s"
    by blast
  have "resumed settles = []"
    using settles_only [OF ev] by blast
  then have res: "resumed (actions st) = map (\<lambda>j. (j, Some v)) (requesting (actions st))"
    by (simp add: f(2,3) es resumed_calls)
  have fr: "first_rejection (actions st) = first_rejection settles"
    by (simp add: f(4) es first_rejection_append first_rejection_calls)
  have se: "Settle j s \<in> set (actions st) \<longleftrightarrow> Settle j s \<in> set settles" for j s
  proof
    assume "Settle j s \<in> set (actions st)"
    from f(7) [OF this] show "Settle j s \<in> set settles" by (auto simp: es)
  next
    assume "Settle j s \<in> set settles"
    then show "Settle j s \<in> set (actions st)" by (simp add: stopped(4) es)
  qed
  show ?thesis
  proof (rule that [of pre l rest st0 settles jd])
    show "actions st = actions st0 @ [Instantiate i, Drive i (Fulfilled (Some v) True)] @
       map (\<lambda>j. Resume j (Some v)) (requesting (actions st)) @ settles"
      unfolding f(2) by (simp add: stopped(4) es i s)
    show "joined_by (requesting (actions st)) settles jd"
      using j by (simp only: f(2))
    show "invoked (actions st) = implementing op pre @ [i]"
      by (simp only: f(1) i)
    show "\<And>j s. Settle j s \<in> set (actions st) \<longleftrightarrow> Settle j s \<in> set settles"
      by (rule se)
  qed (fact stopped(1,2,3) i r stopped(6) f(2) res fr)+
qed

section \<open>The composed object\<close>

lemma digit_less: "digit c = Some d \<Longrightarrow> d < 10"
  by (auto simp: digit_def split: if_splits)

lemma digit_char: "digit c = Some d \<Longrightarrow> c = ''0123456789'' ! d"
  by (auto simp: digit_def split: if_splits)

lemma digit_inj:
  assumes "digit c = Some d" and "digit c' = Some d"
  shows "c = c'"
  using digit_char [OF assms(1)] digit_char [OF assms(2)] by simp

lemma digit_zero: "digit c = Some 0 \<Longrightarrow> c = CHR ''0''"
  by (drule digit_char) simp

lemma decimal_snoc:
  "decimal (cs @ [c]) n =
     (case decimal cs n of
        None \<Rightarrow> None
      | Some m \<Rightarrow> (case digit c of None \<Rightarrow> None | Some d \<Rightarrow> Some (10 * m + d)))"
  by (induction cs arbitrary: n) (simp_all split: option.splits)

lemma decimal_mono: "decimal cs n = Some m \<Longrightarrow> n \<le> m"
proof (induction cs arbitrary: n)
  case Nil
  then show ?case by simp
next
  case (Cons c cs)
  then obtain d where "decimal cs (10 * n + d) = Some m"
    by (auto split: option.splits)
  from Cons.IH [OF this] show ?case by simp
qed

lemma decimal_positive:
  assumes "decimal k 0 = Some n" and "k \<noteq> []" and "hd k \<noteq> CHR ''0''"
  shows "0 < n"
proof -
  from assms(2) obtain c cs where k: "k = c # cs" by (cases k) auto
  with assms(1) obtain d where d: "digit c = Some d" and v: "decimal cs d = Some n"
    by (auto split: option.splits)
  have "d \<noteq> 0"
  proof
    assume "d = 0"
    with d have "c = CHR ''0''" by (simp add: digit_zero)
    with assms(3) k show False by simp
  qed
  with decimal_mono [OF v] show ?thesis by simp
qed

lemma decimal_inj:
  assumes "decimal k 0 = Some n" and "decimal k' 0 = Some n"
    and "k = [] \<or> hd k \<noteq> CHR ''0''" and "k' = [] \<or> hd k' \<noteq> CHR ''0''"
  shows "k = k'"
  using assms
proof (induction k arbitrary: k' n rule: rev_induct)
  case Nil
  then have "n = 0" by simp
  with Nil(2,4) decimal_positive [of k' n] show ?case by auto
next
  case (snoc c p)
  from snoc.prems(1,3) have pos: "0 < n"
    by (intro decimal_positive [of "p @ [c]"]) auto
  have "k' \<noteq> []"
  proof
    assume "k' = []"
    with snoc.prems(2) have "n = 0" by simp
    with pos show False by simp
  qed
  then obtain p' c' where k': "k' = p' @ [c']" by (cases k' rule: rev_cases) auto
  from snoc.prems(1) obtain m d where
    m: "decimal p 0 = Some m" and d: "digit c = Some d" and n: "n = 10 * m + d"
    by (auto simp: decimal_snoc split: option.splits)
  from snoc.prems(2) k' obtain m' d' where
    m': "decimal p' 0 = Some m'" and d': "digit c' = Some d'" and n': "n = 10 * m' + d'"
    by (auto simp: decimal_snoc split: option.splits)
  from digit_less [OF d] digit_less [OF d'] n n' have eq: "d = d'" "m = m'"
    by presburger+
  from d d' eq have c: "c = c'" by (auto dest: digit_inj)
  from snoc.prems(3) have cp: "p = [] \<or> hd p \<noteq> CHR ''0''"
    by (cases p) auto
  from snoc.prems(4) k' have cp': "p' = [] \<or> hd p' \<noteq> CHR ''0''"
    by (cases p') auto
  from snoc.IH [OF m _ cp cp'] m' eq have "p = p'" by simp
  with c k' show ?case by simp
qed

lemma array_index_decimal:
  assumes "array_index k = Some n"
  shows "decimal k 0 = Some n" and "k \<noteq> []" and "k = ''0'' \<or> hd k \<noteq> CHR ''0''"
  using assms by (auto simp: array_index_def split: list.splits option.splits if_splits)

lemma array_index_inj:
  assumes "array_index k = Some n" and "array_index k' = Some n"
  shows "k = k'"
proof -
  note a = array_index_decimal [OF assms(1)]
  note b = array_index_decimal [OF assms(2)]
  show ?thesis
  proof (cases "k = ''0''")
    case True
    with a(1) have n: "n = 0" by (simp add: digit_def)
    from b(3) show ?thesis
    proof
      assume "k' = ''0''"
      with True show ?thesis by simp
    next
      assume "hd k' \<noteq> CHR ''0''"
      from decimal_positive [OF b(1,2) this] n show ?thesis by simp
    qed
  next
    case False
    with a(3) have hk: "hd k \<noteq> CHR ''0''" by simp
    from decimal_positive [OF a(1,2) hk] have pos: "0 < n" .
    have "k' \<noteq> ''0''"
    proof
      assume "k' = ''0''"
      with b(1) have "n = 0" by (simp add: digit_def)
      with pos show False by simp
    qed
    with b(3) have "hd k' \<noteq> CHR ''0''" by simp
    with decimal_inj [OF a(1) b(1)] hk show ?thesis by simp
  qed
qed

lemma insert_index_keys:
  "fst ` set (insert_index n k f obj) = insert k (fst ` set obj)"
  by (induction obj) (auto split: option.splits)

lemma insert_index_distinct:
  "distinct (map fst obj) \<Longrightarrow> k \<notin> fst ` set obj \<Longrightarrow>
     distinct (map fst (insert_index n k f obj))"
proof (induction obj)
  case Nil
  then show ?case by simp
next
  case (Cons kv obj)
  then have "fst kv \<notin> fst ` set (insert_index n k f obj)"
    by (auto simp: insert_index_keys)
  with Cons show ?case by (auto split: option.splits)
qed

lemma insert_index_map_of:
  "k \<notin> fst ` set obj \<Longrightarrow> map_of (insert_index n k f obj) = (map_of obj)(k \<mapsto> f)"
  by (induction obj) (auto split: option.splits)

lemma map_of_snoc:
  "k \<notin> fst ` set obj \<Longrightarrow> map_of (obj @ [(k, f)]) = (map_of obj)(k \<mapsto> f)"
  by (induction obj) auto

lemma insert_index_split:
  assumes "map fst obj = inds @ ns"
    and "\<forall>a \<in> set inds. array_index a \<noteq> None"
    and "\<forall>a \<in> set ns. array_index a = None"
    and "sorted_wrt (<) (map (\<lambda>a. the (array_index a)) inds)"
    and "array_index k = Some n"
    and "k \<notin> set inds"
  shows "\<exists>inds'. map fst (insert_index n k f obj) = inds' @ ns \<and>
           set inds' = insert k (set inds) \<and>
           (\<forall>a \<in> set inds'. array_index a \<noteq> None) \<and>
           sorted_wrt (<) (map (\<lambda>a. the (array_index a)) inds')"
  using assms
proof (induction inds arbitrary: obj)
  case Nil
  have "map fst (insert_index n k f obj) = [k] @ ns"
  proof (cases obj)
    case Nil
    with Nil.prems(1) show ?thesis by simp
  next
    case (Cons kv rest)
    with Nil.prems(1,3) have "array_index (fst kv) = None" by auto
    with Cons Nil.prems(1) show ?thesis by auto
  qed
  with Nil.prems(5) show ?case
    by (intro exI [of _ "[k]"]) simp
next
  case (Cons a inds)
  from Cons.prems(1) obtain kv rest where
    obj: "obj = kv # rest" and a: "fst kv = a" and rest: "map fst rest = inds @ ns"
    by (cases obj) auto
  from Cons.prems(2) obtain m where m: "array_index a = Some m" by auto
  from Cons.prems(6) have ka: "k \<noteq> a" by auto
  with array_index_inj [OF Cons.prems(5)] m have nm: "n \<noteq> m" by auto
  show ?case
  proof (cases "m < n")
    case True
    from Cons.prems have "\<exists>inds'. map fst (insert_index n k f rest) = inds' @ ns \<and>
           set inds' = insert k (set inds) \<and>
           (\<forall>a \<in> set inds'. array_index a \<noteq> None) \<and>
           sorted_wrt (<) (map (\<lambda>a. the (array_index a)) inds')"
      by (intro Cons.IH [OF rest]) auto
    then obtain inds' where
      i1: "map fst (insert_index n k f rest) = inds' @ ns" and
      i2: "set inds' = insert k (set inds)" and
      i3: "\<forall>a \<in> set inds'. array_index a \<noteq> None" and
      i4: "sorted_wrt (<) (map (\<lambda>a. the (array_index a)) inds')"
      by blast
    have "map fst (insert_index n k f obj) = (a # inds') @ ns"
      using obj a m True i1 by simp
    moreover have "set (a # inds') = insert k (set (a # inds))"
      using i2 by auto
    moreover have "\<forall>b \<in> set (a # inds'). array_index b \<noteq> None"
      using i3 m by auto
    moreover have "sorted_wrt (<) (map (\<lambda>a. the (array_index a)) (a # inds'))"
      using i4 i2 m True Cons.prems(4,5) by auto
    ultimately show ?thesis by blast
  next
    case False
    with nm have lt: "n < m" by simp
    have "map fst (insert_index n k f obj) = (k # a # inds) @ ns"
      using obj a m False rest by simp
    moreover have "set (k # a # inds) = insert k (set (a # inds))"
      by simp
    moreover have "\<forall>b \<in> set (k # a # inds). array_index b \<noteq> None"
      using Cons.prems(2,5) by auto
    moreover have "sorted_wrt (<) (map (\<lambda>a. the (array_index a)) (k # a # inds))"
    proof -
      from Cons.prems(4) m have "\<forall>b \<in> set inds. m < the (array_index b)"
        by simp
      with lt have "\<forall>b \<in> set inds. n < the (array_index b)"
        by (meson less_trans)
      with Cons.prems(4,5) m lt show ?thesis by simp
    qed
    ultimately show ?thesis by blast
  qed
qed

lemma obj_put_new:
  assumes "\<not> proto_function DB" and "k \<noteq> ''__proto__''" and "k \<notin> fst ` set (own DB)"
  shows "obj_put DB k f =
     Some (DB\<lparr>own := (case array_index k of
                         Some n \<Rightarrow> insert_index n k f (own DB)
                       | None \<Rightarrow> own DB @ [(k, f)])\<rparr>)"
  using assms by (simp add: obj_put_def)

lemma other_keys_append [simp]: "other_keys (xs @ ys) = other_keys xs @ other_keys ys"
  by (simp add: other_keys_def)

lemma index_keys_append [simp]: "index_keys (xs @ ys) = index_keys xs @ index_keys ys"
  by (simp add: index_keys_def)

lemma forEach_assign_keys:
  assumes "distinct ops" and "''__proto__'' \<notin> set ops"
    and "\<not> proto_function DB"
    and "set ops \<inter> fst ` set (own DB) = {}"
    and "distinct (map fst (own DB))"
    and "map fst (own DB) = inds @ ns"
    and "\<forall>a \<in> set inds. array_index a \<noteq> None"
    and "\<forall>a \<in> set ns. array_index a = None"
    and "sorted_wrt (<) (map (\<lambda>a. the (array_index a)) inds)"
  shows "\<exists>DB' inds'. forEach_assign f ops DB = Some DB' \<and> \<not> proto_function DB' \<and>
           distinct (map fst (own DB')) \<and>
           map fst (own DB') = inds' @ ns @ other_keys ops \<and>
           set inds' = set inds \<union> set (index_keys ops) \<and>
           (\<forall>a \<in> set inds'. array_index a \<noteq> None) \<and>
           sorted_wrt (<) (map (\<lambda>a. the (array_index a)) inds') \<and>
           map_of (own DB') = (\<lambda>k. if k \<in> set ops then Some (f k) else map_of (own DB) k)"
  using assms
proof (induction ops arbitrary: DB inds ns)
  case Nil
  then show ?case by (simp add: other_keys_def index_keys_def)
next
  case (Cons k ops)
  from Cons.prems have new: "k \<notin> fst ` set (own DB)" and np: "k \<noteq> ''__proto__''"
    by auto
  define own' where "own' = (case array_index k of
        Some n \<Rightarrow> insert_index n k (f k) (own DB)
      | None \<Rightarrow> own DB @ [(k, f k)])"
  define DB1 where "DB1 = DB\<lparr>own := own'\<rparr>"
  have put: "obj_put DB k (f k) = Some DB1"
    unfolding DB1_def own'_def using Cons.prems(3) np new by (rule obj_put_new)
  have keys1: "fst ` set own' = insert k (fst ` set (own DB))"
    by (auto simp: own'_def insert_index_keys split: option.splits)
  have dist1: "distinct (map fst own')"
    using Cons.prems(5) new
    by (auto simp: own'_def intro: insert_index_distinct split: option.splits)
  have mo1: "map_of own' = (map_of (own DB))(k \<mapsto> f k)"
  proof (cases "array_index k")
    case None
    then show ?thesis by (simp only: own'_def option.case map_of_snoc [OF new])
  next
    case (Some n)
    then show ?thesis by (simp only: own'_def option.case insert_index_map_of [OF new])
  qed
  have "\<exists>inds1 ns1. map fst own' = inds1 @ ns1 \<and>
          (\<forall>a \<in> set inds1. array_index a \<noteq> None) \<and>
          (\<forall>a \<in> set ns1. array_index a = None) \<and>
          sorted_wrt (<) (map (\<lambda>a. the (array_index a)) inds1) \<and>
          set inds1 = set inds \<union> set (index_keys [k]) \<and>
          ns1 = ns @ other_keys [k]"
  proof (cases "array_index k")
    case None
    then have "map fst own' = inds @ (ns @ [k])"
      using Cons.prems(6) by (simp add: own'_def)
    with None Cons.prems(7,8,9) show ?thesis
      by (intro exI [of _ inds] exI [of _ "ns @ [k]"]) (simp add: index_keys_def other_keys_def)
  next
    case (Some n)
    from new Cons.prems(6) have "k \<notin> set inds"
      by (metis Un_iff list.set_map set_append)
    from insert_index_split [OF Cons.prems(6,7,8,9) Some this, of "f k"]
    obtain inds1 where
      "map fst (insert_index n k (f k) (own DB)) = inds1 @ ns"
      "set inds1 = insert k (set inds)"
      "\<forall>a \<in> set inds1. array_index a \<noteq> None"
      "sorted_wrt (<) (map (\<lambda>a. the (array_index a)) inds1)"
      by blast
    with Some Cons.prems(8) show ?thesis
      by (intro exI [of _ inds1] exI [of _ ns]) (simp add: own'_def index_keys_def other_keys_def)
  qed
  then obtain inds1 ns1 where
    s1: "map fst own' = inds1 @ ns1" and
    s2: "\<forall>a \<in> set inds1. array_index a \<noteq> None" and
    s3: "\<forall>a \<in> set ns1. array_index a = None" and
    s4: "sorted_wrt (<) (map (\<lambda>a. the (array_index a)) inds1)" and
    s5: "set inds1 = set inds \<union> set (index_keys [k])" and
    s6: "ns1 = ns @ other_keys [k]"
    by blast
  have "\<exists>DB' inds'. forEach_assign f ops DB1 = Some DB' \<and> \<not> proto_function DB' \<and>
           distinct (map fst (own DB')) \<and>
           map fst (own DB') = inds' @ ns1 @ other_keys ops \<and>
           set inds' = set inds1 \<union> set (index_keys ops) \<and>
           (\<forall>a \<in> set inds'. array_index a \<noteq> None) \<and>
           sorted_wrt (<) (map (\<lambda>a. the (array_index a)) inds') \<and>
           map_of (own DB') = (\<lambda>k. if k \<in> set ops then Some (f k) else map_of (own DB1) k)"
  proof (rule Cons.IH)
    show "distinct ops" using Cons.prems(1) by simp
    show "''__proto__'' \<notin> set ops" using Cons.prems(2) by simp
    show "\<not> proto_function DB1" using Cons.prems(3) by (simp add: DB1_def)
    show "set ops \<inter> fst ` set (own DB1) = {}"
      using Cons.prems(1,4) keys1 by (auto simp: DB1_def)
    show "distinct (map fst (own DB1))" using dist1 by (simp add: DB1_def)
    show "map fst (own DB1) = inds1 @ ns1" using s1 by (simp add: DB1_def)
    show "\<forall>a \<in> set inds1. array_index a \<noteq> None" by (rule s2)
    show "\<forall>a \<in> set ns1. array_index a = None" by (rule s3)
    show "sorted_wrt (<) (map (\<lambda>a. the (array_index a)) inds1)" by (rule s4)
  qed
  then obtain DB' inds' where
    r1: "forEach_assign f ops DB1 = Some DB'" and
    r2: "\<not> proto_function DB'" and
    r3: "distinct (map fst (own DB'))" and
    r4: "map fst (own DB') = inds' @ ns1 @ other_keys ops" and
    r5: "set inds' = set inds1 \<union> set (index_keys ops)" and
    r6: "\<forall>a \<in> set inds'. array_index a \<noteq> None" and
    r7: "sorted_wrt (<) (map (\<lambda>a. the (array_index a)) inds')" and
    r8: "map_of (own DB') = (\<lambda>k. if k \<in> set ops then Some (f k) else map_of (own DB1) k)"
    by blast
  have "forEach_assign f (k # ops) DB = Some DB'"
    using put r1 by simp
  moreover have "map fst (own DB') = inds' @ ns @ other_keys (k # ops)"
    using r4 s6 by (simp add: other_keys_def)
  moreover have "set inds' = set inds \<union> set (index_keys (k # ops))"
    using r5 s5 by (auto simp: index_keys_def)
  moreover have "map_of (own DB') =
      (\<lambda>a. if a \<in> set (k # ops) then Some (f a) else map_of (own DB) a)"
    using r8 mo1 Cons.prems(1) by (auto simp: DB1_def fun_eq_iff)
  ultimately show ?case using r2 r3 r6 r7 by blast
qed

lemma split_keys:
  assumes "ks = inds @ ns"
    and "\<forall>a \<in> set inds. array_index a \<noteq> None"
    and "\<forall>a \<in> set ns. array_index a = None"
  shows "index_keys ks = inds" and "other_keys ks = ns"
  using assms by (simp_all add: index_keys_def other_keys_def)

lemma scaly_keys:
  assumes "''__proto__'' \<notin> (\<Union>l \<in> set layers. set (own_keys l))"
  shows "\<exists>db. scaly (Array layers) = Inr db \<and> \<not> proto_function db \<and>
           set (Object_keys db) = (\<Union>l \<in> set layers. set (own_keys l)) \<and>
           distinct (Object_keys db) \<and>
           (\<forall>op \<in> set (Object_keys db). map_of (own db) op = Some (DB_op layers op)) \<and>
           Object_keys db = index_keys (Object_keys db) @ other_keys (Object_keys db) \<and>
           sorted_wrt (<) (map (\<lambda>k. the (array_index k)) (index_keys (Object_keys db))) \<and>
           other_keys (Object_keys db) = other_keys (allOperations layers) \<and>
           set (index_keys (Object_keys db)) = set (index_keys (allOperations layers))"
proof -
  let ?ops = "allOperations layers"
  let ?DB = "\<lparr>own = [], proto_function = False\<rparr> ::
    ('a list \<Rightarrow> nat list \<Rightarrow> 'd \<Rightarrow> ('b, 'c) outcome \<times> ('b, 'c, 'd) call_state) object"
  have ops: "?ops = first_seen (concat (map own_keys layers))"
    by (rule allOperations_first_seen)
  have d: "distinct ?ops" by (simp add: ops distinct_first_seen)
  have s: "set ?ops = (\<Union>l \<in> set layers. set (own_keys l))"
    by (simp add: ops set_first_seen)
  with assms have np: "''__proto__'' \<notin> set ?ops" by simp
  have "\<exists>DB' inds'. forEach_assign (DB_op layers) ?ops ?DB = Some DB' \<and> \<not> proto_function DB' \<and>
           distinct (map fst (own DB')) \<and>
           map fst (own DB') = inds' @ [] @ other_keys ?ops \<and>
           set inds' = set [] \<union> set (index_keys ?ops) \<and>
           (\<forall>a \<in> set inds'. array_index a \<noteq> None) \<and>
           sorted_wrt (<) (map (\<lambda>a. the (array_index a)) inds') \<and>
           map_of (own DB') =
             (\<lambda>k. if k \<in> set ?ops then Some (DB_op layers k) else map_of (own ?DB) k)"
    using d np by (intro forEach_assign_keys) simp_all
  then obtain db inds where
    r1: "forEach_assign (DB_op layers) ?ops ?DB = Some db" and
    r2: "\<not> proto_function db" and
    r3: "distinct (map fst (own db))" and
    r4: "map fst (own db) = inds @ other_keys ?ops" and
    r5: "set inds = set (index_keys ?ops)" and
    r6: "\<forall>a \<in> set inds. array_index a \<noteq> None" and
    r7: "sorted_wrt (<) (map (\<lambda>a. the (array_index a)) inds)" and
    r8: "map_of (own db) =
           (\<lambda>k. if k \<in> set ?ops then Some (DB_op layers k) else map_of (own ?DB) k)"
    by auto
  have k: "Object_keys db = inds @ other_keys ?ops"
    using r4 by (simp add: Object_keys_def)
  have o: "\<forall>a \<in> set (other_keys ?ops). array_index a = None"
    by (simp add: other_keys_def)
  note sp = split_keys [OF k r6 o]
  have "set ?ops = set (index_keys ?ops) \<union> set (other_keys ?ops)"
    by (auto simp: index_keys_def other_keys_def)
  with k r5 have ks: "set (Object_keys db) = set ?ops" by simp
  have "scaly (Array layers) = Inr db"
    using r1 by (simp add: scaly_def)
  moreover have "set (Object_keys db) = (\<Union>l \<in> set layers. set (own_keys l))"
    using ks s by simp
  moreover have "distinct (Object_keys db)"
    using r3 by (simp add: Object_keys_def)
  moreover have "\<forall>op \<in> set (Object_keys db). map_of (own db) op = Some (DB_op layers op)"
    using ks r8 by simp
  moreover have "Object_keys db = index_keys (Object_keys db) @ other_keys (Object_keys db)"
    using k sp by simp
  moreover have "sorted_wrt (<) (map (\<lambda>k. the (array_index k)) (index_keys (Object_keys db)))"
    using r7 sp by simp
  moreover have "other_keys (Object_keys db) = other_keys ?ops"
    using sp by simp
  moreover have "set (index_keys (Object_keys db)) = set (index_keys ?ops)"
    using sp r5 by simp
  ultimately show ?thesis using r2 by blast
qed

section \<open>The example layers at work\<close>

lemma run_error:
  "fst (DB_op [memoryCache, persistentDB] ''getUID'' [] [] None) =
     Returns False (Some 0)"
  "actions (snd (DB_op [memoryCache, persistentDB] ''getUID'' [] [] None)) =
     [Instantiate 0, Drive 0 (Fulfilled None False),
      Instantiate 1, Drive 1 (Fulfilled (Some 0) False)]"
  "world (snd (DB_op [memoryCache, persistentDB] ''getUID'' [] [] None)) = None"
  "attemptedLayers (snd (DB_op [memoryCache, persistentDB] ''getUID'' [] [] None)) = [''mc'', ''pdb'']"
  "map fst (pendingGenerators (snd (DB_op [memoryCache, persistentDB] ''getUID'' [] [] None))) = [0]"
  by (simp_all add: DB_op_def visit_def propagate_def memoryCache_def persistentDB_def mc_getUID_def pdb_getUID_def)

lemma run_hit:
  "fst (DB_op [memoryCache, persistentDB] ''getUID'' [7] [] None) =
     Returns True (Some 7)"
  "actions (snd (DB_op [memoryCache, persistentDB] ''getUID'' [7] [] None)) =
     [Instantiate 0, Drive 0 (Fulfilled None False),
      Instantiate 1, Drive 1 (Fulfilled (Some 7) True),
      Resume 0 (Some 7), Settle 0 (Fulfilled None True)]"
  "world (snd (DB_op [memoryCache, persistentDB] ''getUID'' [7] [] None)) = Some 7"
  "attemptedLayers (snd (DB_op [memoryCache, persistentDB] ''getUID'' [7] [] None)) = [''mc'', ''pdb'']"
  "map fst (pendingGenerators (snd (DB_op [memoryCache, persistentDB] ''getUID'' [7] [] None))) = [0]"
  by (simp_all add: DB_op_def visit_def propagate_def memoryCache_def persistentDB_def mc_getUID_def pdb_getUID_def)

lemma run_flaky:
  "fst (DB_op [flakyCache, persistentDB] ''getUID'' [7] [] None) =
     Throws (Raised ''connection lost'')"
  "actions (snd (DB_op [flakyCache, persistentDB] ''getUID'' [7] [] None)) =
     [Instantiate 0, Drive 0 (Fulfilled None False),
      Instantiate 1, Drive 1 (Fulfilled (Some 7) True),
      Resume 0 (Some 7), Settle 0 (Rejected ''connection lost'')]"
  "world (snd (DB_op [flakyCache, persistentDB] ''getUID'' [7] [] None)) = None"
  "attemptedLayers (snd (DB_op [flakyCache, persistentDB] ''getUID'' [7] [] None)) = [''flaky'', ''pdb'']"
  "map fst (pendingGenerators (snd (DB_op [flakyCache, persistentDB] ''getUID'' [7] [] None))) = [0]"
  by (simp_all add: DB_op_def visit_def propagate_def flakyCache_def persistentDB_def flaky_getUID_def pdb_getUID_def)

lemma run_destroy:
  "fst (DB_op [memoryCache, persistentDB] ''destroySession'' [7] [] (Some 3)) =
     Returns True (Some 1)"
  "actions (snd (DB_op [memoryCache, persistentDB] ''destroySession'' [7] [] (Some 3))) =
     [Instantiate 0, Drive 0 (Fulfilled None True),
      Instantiate 1, Drive 1 (Fulfilled (Some 1) True)]"
  "world (snd (DB_op [memoryCache, persistentDB] ''destroySession'' [7] [] (Some 3))) = None"
  "attemptedLayers (snd (DB_op [memoryCache, persistentDB] ''destroySession'' [7] [] (Some 3))) = [''mc'', ''pdb'']"
  "map fst (pendingGenerators (snd (DB_op [memoryCache, persistentDB] ''destroySession'' [7] [] (Some 3)))) = []"
  by (simp_all add: DB_op_def visit_def propagate_def memoryCache_def persistentDB_def mc_destroySession_def pdb_destroySession_def)

lemma run_unhandled:
  "fst (DB_op [memoryCache, flakyCache] ''getUID'' [7] [] None) =
     Throws (Error ''operation was not handled by any configured layers: getUID (attempted layers: mc, flaky)'')"
  "actions (snd (DB_op [memoryCache, flakyCache] ''getUID'' [7] [] None)) =
     [Instantiate 0, Drive 0 (Fulfilled None False),
      Instantiate 1, Drive 1 (Fulfilled None False)]"
  "world (snd (DB_op [memoryCache, flakyCache] ''getUID'' [7] [] None)) = None"
  "attemptedLayers (snd (DB_op [memoryCache, flakyCache] ''getUID'' [7] [] None)) = [''mc'', ''flaky'']"
  "map fst (pendingGenerators (snd (DB_op [memoryCache, flakyCache] ''getUID'' [7] [] None))) = [0, 1]"
  by (simp_all add: DB_op_def visit_def propagate_def memoryCache_def flakyCache_def mc_getUID_def flaky_getUID_def unhandled_def)

lemma run_cached:
  "fst (DB_op [memoryCache, persistentDB] ''getUID'' [7] [] (Some 3)) =
     Returns True (Some 3)"
  "actions (snd (DB_op [memoryCache, persistentDB] ''getUID'' [7] [] (Some 3))) =
     [Instantiate 0, Drive 0 (Fulfilled (Some 3) True)]"
  "world (snd (DB_op [memoryCache, persistentDB] ''getUID'' [7] [] (Some 3))) = Some 3"
  "attemptedLayers (snd (DB_op [memoryCache, persistentDB] ''getUID'' [7] [] (Some 3))) = [''mc'']"
  "map fst (pendingGenerators (snd (DB_op [memoryCache, persistentDB] ''getUID'' [7] [] (Some 3)))) = []"
  by (simp_all add: DB_op_def visit_def propagate_def memoryCache_def persistentDB_def mc_getUID_def pdb_getUID_def)

lemma run_two_throw:
  "fst (DB_op [flakyCache, brokenCache, persistentDB] ''getUID'' [7] [] None) =
     Throws (Raised ''connection lost'')"
  "actions (snd (DB_op [flakyCache, brokenCache, persistentDB] ''getUID'' [7] [] None)) =
     [Instantiate 0, Drive 0 (Fulfilled None False),
      Instantiate 1, Drive 1 (Fulfilled None False),
      Instantiate 2, Drive 2 (Fulfilled (Some 7) True),
      Resume 0 (Some 7), Resume 1 (Some 7),
      Settle 0 (Rejected ''connection lost''), Settle 1 (Rejected ''disk full'')]"
  "world (snd (DB_op [flakyCache, brokenCache, persistentDB] ''getUID'' [7] [] None)) = None"
  "attemptedLayers (snd (DB_op [flakyCache, brokenCache, persistentDB] ''getUID'' [7] [] None)) = [''flaky'', ''broken'', ''pdb'']"
  "map fst (pendingGenerators (snd (DB_op [flakyCache, brokenCache, persistentDB] ''getUID'' [7] [] None))) = [0, 1]"
  by (simp_all add: DB_op_def visit_def propagate_def flakyCache_def brokenCache_def persistentDB_def flaky_getUID_def broken_getUID_def pdb_getUID_def)

lemma run_slow:
  "fst (DB_op [slowCache, brokenCache, persistentDB] ''getUID'' [7] [0] None) =
     Throws (Raised ''disk full'')"
  "actions (snd (DB_op [slowCache, brokenCache, persistentDB] ''getUID'' [7] [0] None)) =
     [Instantiate 0, Drive 0 (Fulfilled None False),
      Instantiate 1, Drive 1 (Fulfilled None False),
      Instantiate 2, Drive 2 (Fulfilled (Some 7) True),
      Resume 0 (Some 7), Resume 1 (Some 7),
      Settle 1 (Rejected ''disk full'')]"
  "world (snd (DB_op [slowCache, brokenCache, persistentDB] ''getUID'' [7] [0] None)) = None"
  "attemptedLayers (snd (DB_op [slowCache, brokenCache, persistentDB] ''getUID'' [7] [0] None)) = [''slow'', ''broken'', ''pdb'']"
  "map fst (pendingGenerators (snd (DB_op [slowCache, brokenCache, persistentDB] ''getUID'' [7] [0] None))) = [0, 1]"
  by (simp_all add: DB_op_def visit_def propagate_def slowCache_def brokenCache_def persistentDB_def slow_getUID_def broken_getUID_def pdb_getUID_def)


lemma run_stuck:
  "fst (DB_op [stuckCache, persistentDB] ''getUID'' [7] [] None) =
     Never_settles"
  "actions (snd (DB_op [stuckCache, persistentDB] ''getUID'' [7] [] None)) =
     [Instantiate 0, Drive 0 (Fulfilled None False),
      Instantiate 1, Drive 1 (Fulfilled (Some 7) True),
      Resume 0 (Some 7)]"
  "world (snd (DB_op [stuckCache, persistentDB] ''getUID'' [7] [] None)) = None"
  "attemptedLayers (snd (DB_op [stuckCache, persistentDB] ''getUID'' [7] [] None)) = [''stuck'', ''pdb'']"
  "map fst (pendingGenerators (snd (DB_op [stuckCache, persistentDB] ''getUID'' [7] [] None))) = [0]"
  by (simp_all add: DB_op_def visit_def propagate_def stuckCache_def persistentDB_def stuck_getUID_def pdb_getUID_def)

lemma run_down:
  "fst (DB_op [memoryCache, downStore] ''getUID'' [7] [] None) =
     Throws (Raised ''down'')"
  "actions (snd (DB_op [memoryCache, downStore] ''getUID'' [7] [] None)) =
     [Instantiate 0, Drive 0 (Fulfilled None False),
      Instantiate 1, Drive 1 (Rejected ''down'')]"
  "world (snd (DB_op [memoryCache, downStore] ''getUID'' [7] [] None)) = None"
  "attemptedLayers (snd (DB_op [memoryCache, downStore] ''getUID'' [7] [] None)) = [''mc'', ''down'']"
  "map fst (pendingGenerators (snd (DB_op [memoryCache, downStore] ''getUID'' [7] [] None))) = [0]"
  by (simp_all add: DB_op_def visit_def propagate_def memoryCache_def downStore_def mc_getUID_def down_getUID_def)


lemma implementing_example:
  "implementing ''getUID'' [memoryCache, persistentDB] = [0, 1]"
  by (simp add: implementing_def implements_def memoryCache_def persistentDB_def upt_rec)

lemma keys_example:
  "allOperations [single ''b'', single ''10'', single ''9'', single ''b''] = [''b'', ''10'', ''9'']"
  "array_index ''b'' = None" "array_index ''10'' = Some 10" "array_index ''9'' = Some 9"
  "array_index ''1'' = Some 1" "array_index ''01'' = None"
  "array_index ''4294967294'' = Some 4294967294" "array_index ''4294967295'' = None"
  by (simp_all add: allOperations_def new_Set_def Set_add_def single_def array_index_def digit_def)

lemma composed_example:
  "map_sum id Object_keys (scaly (Array [single ''b'', single ''10'', single ''9'', single ''b''])) =
     Inr [''9'', ''10'', ''b'']"
  "map_sum id Object_keys (scaly (Array [single ''b'', single ''1''])) = Inr [''1'', ''b'']"
  "map_sum id Object_keys (scaly (Array [single ''__proto__'', single ''name'', single ''b''])) =
     Inr [''b'']"
  "map_sum id Object_keys (scaly (Array [single ''__proto__'', single ''caller''])) =
     Inl Setter_TypeError"
  "map_sum id Object_keys (scaly (Array [memoryCache, persistentDB])) =
     Inr [''getUID'', ''destroySession'']"
  by (simp_all add: scaly_def allOperations_def new_Set_def Set_add_def single_def obj_put_def
      array_index_def digit_def Object_keys_def memoryCache_def persistentDB_def)

section \<open>The claims\<close>

subsection \<open>C1: a layer that resolves the request\<close>

text \<open>
  Claim C1, as amended. When the first drive of layer \<open>i\<close> ends with a defined value
  \<open>v\<close> (\<^verbatim>\<open>done\<close> and \<^verbatim>\<open>result !== undefined\<close>), no layer after \<open>i\<close> is
  instantiated, and what the call does is decided by the resumptions of the pending
  handlers. It returns \<^verbatim>\<open>[true, v]\<close> when every one of them is fulfilled, in particular
  when nothing is pending, as when \<open>i\<close> is the first implementing layer. When a
  resumption is rejected, the call is rejected with what the first resumption to be
  rejected threw. When none is rejected and one of them never settles, the call never
  settles.
\<close>

theorem resolved_value_stops_walk:
  assumes "DB_op layers op args sched w = (r, st)"
    and "Drive i (Fulfilled (Some v) True) \<in> set (actions st)"
  shows "(\<forall>j \<in> set (invoked (actions st)). j \<le> i) \<and>
         ((\<forall>j \<in> set (requesting (actions st)). \<exists>u d. Settle j (Fulfilled u d) \<in> set (actions st))
            \<longrightarrow> r = Returns True (Some v)) \<and>
         (resumed (actions st) = [] \<longrightarrow> r = Returns True (Some v)) \<and>
         ((\<forall>j \<in> set (implementing op layers). i \<le> j) \<longrightarrow> r = Returns True (Some v)) \<and>
         (\<forall>x. first_rejection (actions st) = Some x \<longrightarrow> r = Throws (Raised x)) \<and>
         (\<forall>j x. Settle j (Rejected x) \<in> set (actions st) \<longrightarrow>
            (\<exists>x'. first_rejection (actions st) = Some x' \<and> r = Throws (Raised x'))) \<and>
         (first_rejection (actions st) = None \<and>
          (\<exists>j \<in> set (requesting (actions st)). \<forall>s. Settle j s \<notin> set (actions st))
            \<longrightarrow> r = Never_settles)"
  using assms
proof (cases rule: resolved_run)
  case (1 pre l rest st0 settles jd)
  note jb = \<open>joined_by (requesting (actions st)) settles jd\<close>
  note r = \<open>r = (case jd of All_fulfilled \<Rightarrow> Returns True (Some v)
      | First_rejected x \<Rightarrow> Throws (Raised x) | Unsettled \<Rightarrow> Never_settles)\<close>
  note fr = \<open>first_rejection (actions st) = first_rejection settles\<close>
  note se = \<open>\<And>j s. Settle j s \<in> set (actions st) \<longleftrightarrow> Settle j s \<in> set settles\<close>
  have a: "\<forall>j \<in> set (invoked (actions st)). j \<le> i"
    using 1(4,10) by (auto dest: implementing_bound)
  have b: "r = Returns True (Some v)"
    if "\<forall>j \<in> set (requesting (actions st)). \<exists>u d. Settle j (Fulfilled u d) \<in> set (actions st)"
  proof -
    from that have "\<forall>j \<in> set (requesting (actions st)). \<exists>u d. Settle j (Fulfilled u d) \<in> set settles"
      by (simp only: se)
    then have "jd = All_fulfilled"
      by (simp only: joined_by_fulfilled_iff [OF jb])
    with r show ?thesis by simp
  qed
  have c: "r = Returns True (Some v)" if "resumed (actions st) = []"
  proof -
    from that 1(11) have "requesting (actions st) = []" by simp
    with b show ?thesis by simp
  qed
  have d: "r = Returns True (Some v)" if "\<forall>j \<in> set (implementing op layers). i \<le> j"
  proof -
    have "implementing op layers =
        (implementing op pre @ [length pre]) @
        map (\<lambda>j. Suc (length pre) + j) (implementing op rest)"
      using 1(1,3) by (simp add: implementing_Cons)
    then have "set (implementing op pre) \<subseteq> set (implementing op layers)"
      by auto
    with that 1(4) have low: "\<forall>j \<in> set (implementing op pre). length pre \<le> j"
      by blast
    have "implementing op pre = []"
    proof (cases "implementing op pre")
      case Nil
      then show ?thesis .
    next
      case (Cons a list)
      then have mem: "a \<in> set (implementing op pre)" by simp
      with low have "length pre \<le> a" by blast
      moreover from mem have "a < length pre" by (rule implementing_bound)
      ultimately show ?thesis by simp
    qed
    moreover have "set (requesting (actions st0)) \<subseteq> set (implementing op pre)"
      using 1(2) by (auto simp: head_inv_def set_requesting)
    ultimately have "requesting (actions st) = []" by (simp add: 1(9))
    with b show ?thesis by simp
  qed
  have e: "r = Throws (Raised x)" if "first_rejection (actions st) = Some x" for x
  proof -
    from that have "first_rejection settles = Some x" by (simp only: fr)
    from joined_by_first [OF jb this] r show ?thesis by simp
  qed
  have f: "\<exists>x'. first_rejection (actions st) = Some x' \<and> r = Throws (Raised x')"
    if "Settle j (Rejected x) \<in> set (actions st)" for j x
  proof -
    from that have "first_rejection (actions st) \<noteq> None"
      by (auto simp: first_rejection_None)
    then obtain x' where "first_rejection (actions st) = Some x'" by auto
    with e show ?thesis by blast
  qed
  have g: "r = Never_settles"
    if "first_rejection (actions st) = None"
      and "\<exists>j \<in> set (requesting (actions st)). \<forall>s. Settle j s \<notin> set (actions st)"
  proof -
    from that(2) have "\<not> (\<forall>j \<in> set (requesting (actions st)). \<exists>u d. Settle j (Fulfilled u d) \<in> set settles)"
      by (simp only: se) blast
    moreover from that(1) have "first_rejection settles = None" by (simp only: fr)
    ultimately have "jd = Unsettled"
      using joined_by_some [OF jb] by blast
    with r show ?thesis by simp
  qed
  from a b c d e f g show ?thesis by blast
qed

text \<open>
  Witness for C1, one call for each case: on a miss of the cache the store resolves
  \<open>7\<close>, the cache is fulfilled and the call returns \<^verbatim>\<open>[true, 7]\<close>; with a cache that
  throws on being sent the value the call is rejected with that exception; with a cache
  that never settles the call never settles.
\<close>

theorem resolved_value_stops_walk_witness:
  "Drive 1 (Fulfilled (Some 7) True) \<in> set (actions (snd (DB_op [memoryCache, persistentDB] ''getUID'' [7] [] None))) \<and>
   fst (DB_op [memoryCache, persistentDB] ''getUID'' [7] [] None) = Returns True (Some 7) \<and>
   invoked (actions (snd (DB_op [memoryCache, persistentDB] ''getUID'' [7] [] None))) = [0, 1] \<and>
   Drive 1 (Fulfilled (Some 7) True) \<in> set (actions (snd (DB_op [flakyCache, persistentDB] ''getUID'' [7] [] None))) \<and>
   first_rejection (actions (snd (DB_op [flakyCache, persistentDB] ''getUID'' [7] [] None))) = Some ''connection lost'' \<and>
   fst (DB_op [flakyCache, persistentDB] ''getUID'' [7] [] None) = Throws (Raised ''connection lost'') \<and>
   Drive 1 (Fulfilled (Some 7) True) \<in> set (actions (snd (DB_op [stuckCache, persistentDB] ''getUID'' [7] [] None))) \<and>
   first_rejection (actions (snd (DB_op [stuckCache, persistentDB] ''getUID'' [7] [] None))) = None \<and>
   settling (actions (snd (DB_op [stuckCache, persistentDB] ''getUID'' [7] [] None))) = [] \<and>
   fst (DB_op [stuckCache, persistentDB] ''getUID'' [7] [] None) = Never_settles"
proof -
  have hit: "DB_op [memoryCache, persistentDB] ''getUID'' [7] [] None =
      (fst (DB_op [memoryCache, persistentDB] ''getUID'' [7] [] None),
       snd (DB_op [memoryCache, persistentDB] ''getUID'' [7] [] None))"
    by simp
  have flaky: "DB_op [flakyCache, persistentDB] ''getUID'' [7] [] None =
      (fst (DB_op [flakyCache, persistentDB] ''getUID'' [7] [] None),
       snd (DB_op [flakyCache, persistentDB] ''getUID'' [7] [] None))"
    by simp
  have stuck: "DB_op [stuckCache, persistentDB] ''getUID'' [7] [] None =
      (fst (DB_op [stuckCache, persistentDB] ''getUID'' [7] [] None),
       snd (DB_op [stuckCache, persistentDB] ''getUID'' [7] [] None))"
    by simp
  have m1: "Drive 1 (Fulfilled (Some 7) True) \<in> set (actions (snd (DB_op [memoryCache, persistentDB] ''getUID'' [7] [] None)))"
    by (simp add: run_hit)
  have m2: "Drive 1 (Fulfilled (Some 7) True) \<in> set (actions (snd (DB_op [flakyCache, persistentDB] ''getUID'' [7] [] None)))"
    by (simp add: run_flaky)
  have m3: "Drive 1 (Fulfilled (Some 7) True) \<in> set (actions (snd (DB_op [stuckCache, persistentDB] ''getUID'' [7] [] None)))"
    by (simp add: run_stuck)
  from resolved_value_stops_walk [OF hit m1] resolved_value_stops_walk [OF flaky m2]
    resolved_value_stops_walk [OF stuck m3]
  show ?thesis
    by (simp add: run_hit run_flaky run_stuck)
qed

text \<open>
  Counterexample to C1 as stated: the store's handler ends its first drive with the
  value \<open>7\<close>, and the call does not return \<^verbatim>\<open>[true, 7]\<close>, because the pending cache
  throws when it is sent the value.
\<close>

theorem resolved_value_not_always_returned:
  "Drive 1 (Fulfilled (Some 7) True)
     \<in> set (actions (snd (DB_op [flakyCache, persistentDB] ''getUID'' [7] [] None))) \<and>
   fst (DB_op [flakyCache, persistentDB] ''getUID'' [7] [] None) \<noteq> Returns True (Some 7)"
  by (simp add: run_flaky)

subsection \<open>C2: a layer that signals an error\<close>

text \<open>
  Claim C2. When the first drive of some layer \<open>i\<close> suspends with a defined payload
  \<open>e\<close>, the call returns \<^verbatim>\<open>[false, e]\<close>; that drive is the last action of the call,
  so no layer after \<open>i\<close> is instantiated and no pending handler is resumed.
\<close>

theorem error_payload_returns_failure:
  assumes "DB_op layers op args sched w = (r, st)"
    and "Drive i (Fulfilled (Some e) False) \<in> set (actions st)"
  shows "r = Returns False (Some e) \<and>
         (\<forall>j \<in> set (invoked (actions st)). j \<le> i) \<and>
         resumed (actions st) = [] \<and>
         last (actions st) = Drive i (Fulfilled (Some e) False)"
  using assms(1)
proof (cases rule: DB_op_cases)
  case exhausted
  then have "quiet (Drive i (Fulfilled (Some e) False))"
    using assms(2) by (auto simp: head_inv_def dest: quiet_mem)
  then show ?thesis by simp
next
  case (stopped pre l rest st0 s es)
  note f = stopped_facts [OF stopped(2,4,7)]
  from f(5) [OF assms(2)] have i: "i = length pre" and s: "s = Fulfilled (Some e) False"
    by auto
  from stopped(7) s have es: "es = []" and r: "r = Returns False (Some e)"
    by (auto simp: stopped_by_def)
  show ?thesis
    using r f(1,3) es i s stopped(4) by (auto dest: implementing_bound)
qed

text \<open>
  Witness for C2: the cache is pending when the store yields the error payload \<open>0\<close>;
  the call returns \<^verbatim>\<open>[false, 0]\<close> and the cache is not resumed.
\<close>

theorem error_payload_returns_failure_witness:
  "Drive 1 (Fulfilled (Some 0) False) \<in> set (actions (snd (DB_op [memoryCache, persistentDB] ''getUID'' [] [] None))) \<and>
   fst (DB_op [memoryCache, persistentDB] ''getUID'' [] [] None) = Returns False (Some 0) \<and>
   resumed (actions (snd (DB_op [memoryCache, persistentDB] ''getUID'' [] [] None))) = []"
proof -
  have run: "DB_op [memoryCache, persistentDB] ''getUID'' [] [] None =
      (fst (DB_op [memoryCache, persistentDB] ''getUID'' [] [] None),
       snd (DB_op [memoryCache, persistentDB] ''getUID'' [] [] None))"
    by simp
  have mem: "Drive 1 (Fulfilled (Some 0) False) \<in> set (actions (snd (DB_op [memoryCache, persistentDB] ''getUID'' [] [] None)))"
    by (simp add: run_error)
  from error_payload_returns_failure [OF run mem] mem show ?thesis
    by simp
qed

subsection \<open>C3: propagation to the pending handlers\<close>



subsection \<open>C4: no layer handles the operation\<close>

text \<open>
  Claim C4. When every first drive of the call is fulfilled with \<^verbatim>\<open>undefined\<close>
  (the handler opted out or suspended without payload), the loop runs through the whole
  array and the call throws an \<^verbatim>\<open>Error\<close> (it returns no result) whose message holds
  the operation name and the \<^verbatim>\<open>toString()\<close> of every implementing layer, in the order
  of the array, joined by a comma and a space.
\<close>

theorem exhausted_walk_throws_unhandled:
  assumes "DB_op layers op args sched w = (r, st)"
    and "\<forall>j s. Drive j s \<in> set (actions st) \<longrightarrow> (\<exists>d. s = Fulfilled None d)"
  shows "r = Throws (Error (''operation was not handled by any configured layers: '' @ op @
             '' (attempted layers: '' @
             join '', '' (map toString (filter (\<lambda>l. implements l op) layers)) @ '')'')) \<and>
         attemptedLayers st = map toString (filter (\<lambda>l. implements l op) layers) \<and>
         invoked (actions st) = implementing op layers"
  using assms(1)
proof (cases rule: DB_op_cases)
  case exhausted
  then show ?thesis by (simp add: head_inv_def unhandled_def)
next
  case (stopped pre l rest st0 s es)
  have "Drive (length pre) s \<in> set (actions st)"
    by (simp add: stopped(4))
  with assms(2) obtain d where "s = Fulfilled None d" by blast
  with stopped(7) show ?thesis by (simp add: stopped_by_def)
qed

text \<open>
  Witness for C4: two caches that only ask for the value; the call throws, naming the
  operation and both layers.
\<close>

theorem exhausted_walk_throws_unhandled_witness:
  "actions (snd (DB_op [memoryCache, flakyCache] ''getUID'' [7] [] None)) =
     [Instantiate 0, Drive 0 (Fulfilled None False), Instantiate 1, Drive 1 (Fulfilled None False)] \<and>
   fst (DB_op [memoryCache, flakyCache] ''getUID'' [7] [] None) =
     Throws (Error ''operation was not handled by any configured layers: getUID (attempted layers: mc, flaky)'')"
proof -
  have run: "DB_op [memoryCache, flakyCache] ''getUID'' [7] [] None =
      (fst (DB_op [memoryCache, flakyCache] ''getUID'' [7] [] None),
       snd (DB_op [memoryCache, flakyCache] ''getUID'' [7] [] None))"
    by simp
  have quiet_run: "\<forall>j s. Drive j s \<in> set (actions (snd (DB_op [memoryCache, flakyCache] ''getUID'' [7] [] None)))
      \<longrightarrow> (\<exists>d. s = Fulfilled None d)"
    by (auto simp: run_unhandled)
  from exhausted_walk_throws_unhandled [OF run quiet_run] show ?thesis
    by (simp add: run_unhandled)
qed

subsection \<open>C5: the order of dispatch\<close>

text \<open>
  Claim C5, as amended. The layers whose handler is instantiated, which are the layers
  recorded in \<^verbatim>\<open>attemptedLayers\<close>, are an initial segment of the layer array
  restricted to the layers implementing the operation, in the same order: the whole
  restricted array when the call ends with the error of an unhandled operation, and the
  implementing layers up to and including the one that ended the call (its first drive
  was not fulfilled with \<^verbatim>\<open>undefined\<close>) otherwise. A layer that does not implement
  the operation is never instantiated and never recorded.
\<close>

theorem invoked_prefix_of_implementing:
  assumes "DB_op layers op args sched w = (r, st)"
  shows "(\<exists>n. invoked (actions st) = take n (implementing op layers)) \<and>
         attemptedLayers st = map (\<lambda>i. toString (layers ! i)) (invoked (actions st)) \<and>
         (\<forall>i \<in> set (invoked (actions st)). i < length layers \<and> implements (layers ! i) op) \<and>
         ((\<exists>m. r = Throws (Error m)) \<longrightarrow> invoked (actions st) = implementing op layers) \<and>
         (\<forall>i s. Drive i s \<in> set (actions st) \<and> (\<forall>d. s \<noteq> Fulfilled None d) \<longrightarrow>
            invoked (actions st) = filter (\<lambda>j. j \<le> i) (implementing op layers))"
  using assms(1)
proof (cases rule: DB_op_cases)
  case exhausted
  then have inv: "invoked (actions st) = implementing op layers"
    and att: "attemptedLayers st = map toString (filter (\<lambda>l. implements l op) layers)"
    and q: "list_all quiet (actions st)"
    by (simp_all add: head_inv_def)
  have "invoked (actions st) = take (length (implementing op layers)) (implementing op layers)"
    using inv by simp
  then have "\<exists>n. invoked (actions st) = take n (implementing op layers)" ..
  moreover have "attemptedLayers st = map (\<lambda>i. toString (layers ! i)) (invoked (actions st))"
    using inv att by (simp add: map_implementing)
  moreover have "\<forall>i \<in> set (invoked (actions st)). i < length layers \<and> implements (layers ! i) op"
    using inv by (simp add: implementing_def)
  moreover have "\<forall>i s. Drive i s \<in> set (actions st) \<and> (\<forall>d. s \<noteq> Fulfilled None d) \<longrightarrow>
            invoked (actions st) = filter (\<lambda>j. j \<le> i) (implementing op layers)"
  proof (intro allI impI)
    fix i s
    assume "Drive i s \<in> set (actions st) \<and> (\<forall>d. s \<noteq> Fulfilled None d)"
    then have "quiet (Drive i s)" "\<forall>d. s \<noteq> Fulfilled None d"
      using quiet_mem [OF q] by simp_all
    then show "invoked (actions st) = filter (\<lambda>j. j \<le> i) (implementing op layers)"
      by (simp add: quiet_Drive)
  qed
  ultimately show ?thesis using inv by blast
next
  case (stopped pre l rest st0 s es)
  note f = stopped_facts [OF stopped(2,4,7)]
  have imp: "implementing op layers =
      (implementing op pre @ [length pre]) @ map (\<lambda>j. Suc (length pre) + j) (implementing op rest)"
    using stopped(1,3) by (simp add: implementing_Cons)
  have "invoked (actions st) = take (Suc (length (implementing op pre))) (implementing op layers)"
    unfolding imp f(1) by simp
  then have a: "\<exists>n. invoked (actions st) = take n (implementing op layers)" ..
  have "attemptedLayers st0 = map toString (filter (\<lambda>l. implements l op) pre)"
    using stopped(2) by (simp add: head_inv_def)
  then have "attemptedLayers st = map (\<lambda>i. toString (pre ! i)) (implementing op pre) @ [toString l]"
    using stopped(5) by (simp add: map_implementing)
  moreover have "map (\<lambda>i. toString (pre ! i)) (implementing op pre) =
                 map (\<lambda>i. toString (layers ! i)) (implementing op pre)"
    using implementing_bound [of _ op pre]
    by (intro map_cong) (auto simp: stopped(1) nth_append)
  ultimately have b: "attemptedLayers st = map (\<lambda>i. toString (layers ! i)) (invoked (actions st))"
    by (simp add: f(1) stopped(1))
  have "set (invoked (actions st)) \<subseteq> set (implementing op layers)"
    unfolding imp f(1) by auto
  then have c: "\<forall>i \<in> set (invoked (actions st)). i < length layers \<and> implements (layers ! i) op"
    by (auto simp: implementing_def)
  have d: "(\<exists>m. r = Throws (Error m)) \<longrightarrow> invoked (actions st) = implementing op layers"
    using stopped_by_result [OF stopped(7)] by auto
  have e: "invoked (actions st) = filter (\<lambda>j. j \<le> i) (implementing op layers)"
    if "Drive i s' \<in> set (actions st)" "\<forall>d. s' \<noteq> Fulfilled None d" for i s'
  proof -
    from f(5) [OF that(1)] that(2) have i: "i = length pre"
      by (auto simp: quiet_Drive)
    have "filter (\<lambda>j. j \<le> length pre) (implementing op pre) = implementing op pre"
      by (intro filter_True) (auto dest!: implementing_bound)
    moreover have "filter (\<lambda>j. j \<le> length pre)
        (map (\<lambda>j. Suc (length pre) + j) (implementing op rest)) = []"
      by (simp add: filter_empty_conv)
    ultimately show ?thesis
      unfolding imp f(1) i by simp
  qed
  from a b c d e show ?thesis by blast
qed

text \<open>
  Witness for C5: on a hit of the cache only the cache is invoked.
\<close>

theorem invoked_prefix_of_implementing_witness:
  "invoked (actions (snd (DB_op [memoryCache, persistentDB] ''getUID'' [7] [] (Some 3)))) =
     take 1 (implementing ''getUID'' [memoryCache, persistentDB]) \<and>
   attemptedLayers (snd (DB_op [memoryCache, persistentDB] ''getUID'' [7] [] (Some 3))) = [''mc'']"
proof -
  have run: "DB_op [memoryCache, persistentDB] ''getUID'' [7] [] (Some 3) =
      (fst (DB_op [memoryCache, persistentDB] ''getUID'' [7] [] (Some 3)),
       snd (DB_op [memoryCache, persistentDB] ''getUID'' [7] [] (Some 3)))"
    by simp
  from invoked_prefix_of_implementing [OF run] show ?thesis
    by (simp add: run_cached implementing_example)
qed

text \<open>
  Counterexample to C5 as stated: both layers implement \<^verbatim>\<open>getUID\<close>, and on a hit of
  the cache the store is not invoked, so the invoked layers are not the whole restricted
  array.
\<close>

theorem invoked_not_all_implementing:
  "invoked (actions (snd (DB_op [memoryCache, persistentDB] ''getUID'' [7] [] (Some 3)))) = [0] \<and>
   implementing ''getUID'' [memoryCache, persistentDB] = [0, 1] \<and>
   invoked (actions (snd (DB_op [memoryCache, persistentDB] ''getUID'' [7] [] (Some 3))))
     \<noteq> implementing ''getUID'' [memoryCache, persistentDB]"
  by (simp add: run_cached implementing_example)

subsection \<open>C6: exceptions of handlers\<close>

text \<open>
  Claim C6, as amended. The engine catches and converts nothing. When a first drive is
  rejected with \<open>x\<close>, the call is rejected with \<open>x\<close>. When resumptions of pending
  handlers are rejected, after the value has been decided, the call is rejected with what
  the first of them to be rejected threw, unchanged, and returns no result. A call is
  rejected with a handler's exception in these two ways only; the exception of a resumed
  handler that is not the first to be rejected reaches nobody.
\<close>

theorem handler_exceptions_propagate:
  assumes "DB_op layers op args sched w = (r, st)"
  shows "(\<forall>i x. Drive i (Rejected x) \<in> set (actions st) \<longrightarrow> r = Throws (Raised x)) \<and>
         (\<forall>x. first_rejection (actions st) = Some x \<longrightarrow> r = Throws (Raised x)) \<and>
         (\<forall>j x. Settle j (Rejected x) \<in> set (actions st) \<longrightarrow>
            (\<exists>x'. first_rejection (actions st) = Some x' \<and> r = Throws (Raised x'))) \<and>
         (\<forall>x. r = Throws (Raised x) \<longrightarrow>
            (\<exists>i. Drive i (Rejected x) \<in> set (actions st)) \<or>
            first_rejection (actions st) = Some x)"
  using assms(1)
proof (cases rule: DB_op_cases)
  case exhausted
  then have q: "list_all quiet (actions st)" by (simp add: head_inv_def)
  have "\<And>i x. Drive i (Rejected x) \<notin> set (actions st)"
    using quiet_mem [OF q] by fastforce
  moreover have "first_rejection (actions st) = None"
    using q by (rule quiet_no_rejection)
  ultimately show ?thesis
    using exhausted(2) by (simp add: first_rejection_None)
next
  case (stopped pre l rest st0 s es)
  note f = stopped_facts [OF stopped(2,4,7)]
  note sr = stopped_by_rejection [OF stopped(7)]
  have a: "r = Throws (Raised x)" if "Drive i (Rejected x) \<in> set (actions st)" for i x
  proof -
    from f(5) [OF that] have "s = Rejected x" by auto
    with sr show ?thesis by blast
  qed
  have b: "r = Throws (Raised x)" if "first_rejection (actions st) = Some x" for x
    using that sr unfolding f(4) by blast
  have c: "\<exists>x'. first_rejection (actions st) = Some x' \<and> r = Throws (Raised x')"
    if "Settle j (Rejected x) \<in> set (actions st)" for j x
  proof -
    from that have "first_rejection (actions st) \<noteq> None"
      by (auto simp: first_rejection_None)
    then obtain x' where "first_rejection (actions st) = Some x'" by auto
    with b show ?thesis by blast
  qed
  have d: "(\<exists>i. Drive i (Rejected x) \<in> set (actions st)) \<or> first_rejection (actions st) = Some x"
    if "r = Throws (Raised x)" for x
  proof -
    from sr that have "s = Rejected x \<or> first_rejection es = Some x" by blast
    then show ?thesis
    proof
      assume "s = Rejected x"
      then have "Drive (length pre) (Rejected x) \<in> set (actions st)"
        by (simp add: stopped(4))
      then show ?thesis by blast
    next
      assume "first_rejection es = Some x"
      then have "first_rejection (actions st) = Some x" by (simp only: f(4))
      then show ?thesis ..
    qed
  qed
  from a b c d show ?thesis by blast
qed

text \<open>
  Witness for C6: a store that throws when first driven; a pending cache that throws on
  being sent the value; and two pending caches of which the second throws at once and the
  first only after an \<^verbatim>\<open>await\<close>, so that the call is rejected with the exception of the
  second.
\<close>

theorem handler_exceptions_propagate_witness:
  "Drive 1 (Rejected ''down'') \<in> set (actions (snd (DB_op [memoryCache, downStore] ''getUID'' [7] [] None))) \<and>
   fst (DB_op [memoryCache, downStore] ''getUID'' [7] [] None) = Throws (Raised ''down'') \<and>
   Settle 0 (Rejected ''connection lost'') \<in> set (actions (snd (DB_op [flakyCache, persistentDB] ''getUID'' [7] [] None))) \<and>
   first_rejection (actions (snd (DB_op [flakyCache, persistentDB] ''getUID'' [7] [] None))) = Some ''connection lost'' \<and>
   fst (DB_op [flakyCache, persistentDB] ''getUID'' [7] [] None) = Throws (Raised ''connection lost'') \<and>
   first_rejection (actions (snd (DB_op [slowCache, brokenCache, persistentDB] ''getUID'' [7] [0] None))) = Some ''disk full'' \<and>
   fst (DB_op [slowCache, brokenCache, persistentDB] ''getUID'' [7] [0] None) = Throws (Raised ''disk full'')"
proof -
  have r1: "DB_op [memoryCache, downStore] ''getUID'' [7] [] None =
      (fst (DB_op [memoryCache, downStore] ''getUID'' [7] [] None),
       snd (DB_op [memoryCache, downStore] ''getUID'' [7] [] None))"
    by simp
  have r2: "DB_op [flakyCache, persistentDB] ''getUID'' [7] [] None =
      (fst (DB_op [flakyCache, persistentDB] ''getUID'' [7] [] None),
       snd (DB_op [flakyCache, persistentDB] ''getUID'' [7] [] None))"
    by simp
  have r3: "DB_op [slowCache, brokenCache, persistentDB] ''getUID'' [7] [0] None =
      (fst (DB_op [slowCache, brokenCache, persistentDB] ''getUID'' [7] [0] None),
       snd (DB_op [slowCache, brokenCache, persistentDB] ''getUID'' [7] [0] None))"
    by simp
  from handler_exceptions_propagate [OF r1] handler_exceptions_propagate [OF r2]
    handler_exceptions_propagate [OF r3]
  show ?thesis
    by (simp add: run_down run_flaky run_slow)
qed

text \<open>
  Counterexample to C6 as stated: two pending caches both throw when they are sent the
  value. The call is rejected with the exception of the first, and the exception of the
  second, \<open>''disk full''\<close>, does not reach the caller.
\<close>

theorem second_exception_not_propagated:
  "Settle 1 (Rejected ''disk full'') \<in> set (actions (snd (DB_op [flakyCache, brokenCache, persistentDB] ''getUID'' [7] [] None))) \<and>
   fst (DB_op [flakyCache, brokenCache, persistentDB] ''getUID'' [7] [] None) = Throws (Raised ''connection lost'') \<and>
   fst (DB_op [flakyCache, brokenCache, persistentDB] ''getUID'' [7] [] None) \<noteq> Throws (Raised ''disk full'')"
  by (simp add: run_two_throw)

subsection \<open>C7: a layer that opts out\<close>

text \<open>
  Claim C7. When the first drive of layer \<open>i\<close> ends with \<^verbatim>\<open>undefined\<close>, its generator
  is not in the pending list and is never resumed, and the next implementing layer of the
  array, when there is one, is instantiated.
\<close>

theorem opt_out_continues_unresumed:
  assumes "DB_op layers op args sched w = (r, st)"
    and "Drive i (Fulfilled None True) \<in> set (actions st)"
  shows "i \<notin> fst ` set (pendingGenerators st) \<and>
         i \<notin> fst ` set (resumed (actions st)) \<and>
         (\<forall>j. j \<in> set (implementing op layers) \<and> i < j \<and>
              (\<forall>m. m \<in> set (implementing op layers) \<and> i < m \<longrightarrow> j \<le> m)
              \<longrightarrow> j \<in> set (invoked (actions st)))"
  using assms(1)
proof (cases rule: DB_op_cases)
  case exhausted
  then have inv: "invoked (actions st) = implementing op layers"
    and q: "list_all quiet (actions st)"
    and p: "map fst (pendingGenerators st) = requesting (actions st)"
    and u: "\<forall>j s s'. Drive j s \<in> set (actions st) \<longrightarrow> Drive j s' \<in> set (actions st) \<longrightarrow> s = s'"
    by (simp_all add: head_inv_def)
  have "i \<notin> set (requesting (actions st))"
    using u assms(2) by (auto simp: set_requesting)
  then have "i \<notin> fst ` set (pendingGenerators st)"
    using p by (metis set_map)
  then show ?thesis
    using inv quiet_no_resumed [OF q] by simp
next
  case (stopped pre l rest st0 s es)
  note f = stopped_facts [OF stopped(2,4,7)]
  from stopped(2) have
    p0: "map fst (pendingGenerators st0) = requesting (actions st0)" and
    u0: "\<forall>j s s'. Drive j s \<in> set (actions st0) \<longrightarrow> Drive j s' \<in> set (actions st0) \<longrightarrow> s = s'"
    by (simp_all add: head_inv_def)
  have nq: "\<not> quiet (Drive (length pre) s)"
    using stopped(7) by (rule stopped_by_not_quiet)
  from f(5) [OF assms(2)] nq have i: "i < length pre"
    and mem: "Drive i (Fulfilled None True) \<in> set (actions st0)"
    by auto
  have a0: "i \<notin> set (requesting (actions st0))"
    using u0 mem by (auto simp: set_requesting)
  then have "i \<notin> fst ` set (pendingGenerators st0)"
    using p0 by (metis set_map)
  then have a: "i \<notin> fst ` set (pendingGenerators st)"
    by (simp add: stopped(6))
  from stopped_by_events [OF stopped(7)]
  have "fst ` set (resumed es) \<subseteq> set (requesting (actions st0))"
    by (force split: settled.splits option.splits bool.splits)
  with a0 have b: "i \<notin> fst ` set (resumed (actions st))"
    unfolding f(3) by blast
  have imp: "implementing op layers =
      (implementing op pre @ [length pre]) @ map (\<lambda>j. Suc (length pre) + j) (implementing op rest)"
    using stopped(1,3) by (simp add: implementing_Cons)
  have c: "j \<in> set (invoked (actions st))"
    if "j \<in> set (implementing op layers)" "i < j"
      "\<forall>m. m \<in> set (implementing op layers) \<and> i < m \<longrightarrow> j \<le> m" for j
  proof -
    have "length pre \<in> set (implementing op layers)"
      unfolding imp by simp
    with that(3) i have "j \<le> length pre" by simp
    with that(1) show ?thesis
      unfolding imp f(1) by auto
  qed
  from a b c show ?thesis by blast
qed

text \<open>
  Witness for C7: the cache opts out of \<^verbatim>\<open>destroySession\<close>; the store is invoked
  next and nothing is pending.
\<close>

theorem opt_out_continues_unresumed_witness:
  "Drive 0 (Fulfilled None True) \<in> set (actions (snd (DB_op [memoryCache, persistentDB] ''destroySession'' [7] [] (Some 3)))) \<and>
   pendingGenerators (snd (DB_op [memoryCache, persistentDB] ''destroySession'' [7] [] (Some 3))) = [] \<and>
   invoked (actions (snd (DB_op [memoryCache, persistentDB] ''destroySession'' [7] [] (Some 3)))) = [0, 1]"
proof -
  have run: "DB_op [memoryCache, persistentDB] ''destroySession'' [7] [] (Some 3) =
      (fst (DB_op [memoryCache, persistentDB] ''destroySession'' [7] [] (Some 3)),
       snd (DB_op [memoryCache, persistentDB] ''destroySession'' [7] [] (Some 3)))"
    by simp
  have mem: "Drive 0 (Fulfilled None True) \<in> set (actions (snd (DB_op [memoryCache, persistentDB] ''destroySession'' [7] [] (Some 3))))"
    by (simp add: run_destroy)
  have pend: "pendingGenerators (snd (DB_op [memoryCache, persistentDB] ''destroySession'' [7] [] (Some 3))) = []"
    using run_destroy(5) by simp
  from opt_out_continues_unresumed [OF run mem] mem pend show ?thesis
    by (simp add: run_destroy(2))
qed

subsection \<open>C8: the names of the composed object\<close>

text \<open>
  Claim C8, as amended. The operation names that the engine collects
  (\<^verbatim>\<open>allOperations\<close>) are the own keys of all layers, each layer's keys in its own order
  and the layers in the order of the array, every name once, at its first occurrence; as a
  set, the union of the layers' keys. When \<^verbatim>\<open>__proto__\<close> is not among them, the composed
  object has exactly these names as its own keys, once each, every name bound to the
  composed operation of that name. It lists the names that are array indices first, in
  ascending numeric order, and the other names after them, in the order of first
  occurrence; so its keys are in the order of first occurrence when no name is an array
  index.
\<close>

theorem operation_names_union_first_seen:
  "allOperations layers = first_seen (concat (map own_keys layers)) \<and>
   distinct (allOperations layers) \<and>
   set (allOperations layers) = (\<Union>l \<in> set layers. set (own_keys l)) \<and>
   (''__proto__'' \<notin> set (allOperations layers) \<longrightarrow>
      (\<exists>db. scaly (Array layers) = Inr db \<and>
         set (Object_keys db) = (\<Union>l \<in> set layers. set (own_keys l)) \<and>
         distinct (Object_keys db) \<and>
         (\<forall>op \<in> set (Object_keys db). map_of (own db) op = Some (DB_op layers op)) \<and>
         Object_keys db = index_keys (Object_keys db) @ other_keys (Object_keys db) \<and>
         sorted_wrt (<) (map (\<lambda>k. the (array_index k)) (index_keys (Object_keys db))) \<and>
         other_keys (Object_keys db) = other_keys (allOperations layers) \<and>
         (index_keys (allOperations layers) = [] \<longrightarrow>
            Object_keys db = allOperations layers)))"
proof -
  have ops: "allOperations layers = first_seen (concat (map own_keys layers))"
    by (rule allOperations_first_seen)
  have d: "distinct (allOperations layers)" by (simp add: ops distinct_first_seen)
  have s: "set (allOperations layers) = (\<Union>l \<in> set layers. set (own_keys l))"
    by (simp add: ops set_first_seen)
  have "\<exists>db. scaly (Array layers) = Inr db \<and>
         set (Object_keys db) = (\<Union>l \<in> set layers. set (own_keys l)) \<and>
         distinct (Object_keys db) \<and>
         (\<forall>op \<in> set (Object_keys db). map_of (own db) op = Some (DB_op layers op)) \<and>
         Object_keys db = index_keys (Object_keys db) @ other_keys (Object_keys db) \<and>
         sorted_wrt (<) (map (\<lambda>k. the (array_index k)) (index_keys (Object_keys db))) \<and>
         other_keys (Object_keys db) = other_keys (allOperations layers) \<and>
         (index_keys (allOperations layers) = [] \<longrightarrow>
            Object_keys db = allOperations layers)"
    if "''__proto__'' \<notin> set (allOperations layers)"
  proof -
    from that s have "''__proto__'' \<notin> (\<Union>l \<in> set layers. set (own_keys l))" by simp
    from scaly_keys [OF this] obtain db where
      db: "scaly (Array layers) = Inr db"
        "set (Object_keys db) = (\<Union>l \<in> set layers. set (own_keys l))"
        "distinct (Object_keys db)"
        "\<forall>op \<in> set (Object_keys db). map_of (own db) op = Some (DB_op layers op)"
        "Object_keys db = index_keys (Object_keys db) @ other_keys (Object_keys db)"
        "sorted_wrt (<) (map (\<lambda>k. the (array_index k)) (index_keys (Object_keys db)))"
        "other_keys (Object_keys db) = other_keys (allOperations layers)"
        "set (index_keys (Object_keys db)) = set (index_keys (allOperations layers))"
      by blast
    have "Object_keys db = allOperations layers" if e: "index_keys (allOperations layers) = []"
    proof -
      from e have "other_keys (allOperations layers) = allOperations layers"
        by (simp add: index_keys_def other_keys_def filter_empty_conv)
      moreover from e db(8) have "index_keys (Object_keys db) = []" by simp
      ultimately show ?thesis using db(5,7) by simp
    qed
    with db show ?thesis by blast
  qed
  with ops d s show ?thesis by blast
qed

text \<open>
  Witness for C8: layers with the keys \<open>''b''\<close>, \<open>''10''\<close>, \<open>''9''\<close> and
  \<open>''b''\<close> again give an object with the keys \<open>''9''\<close>, \<open>''10''\<close>,
  \<open>''b''\<close>; the cache and the store, none of whose keys is an array index, give an
  object with the keys in the order of first occurrence.
\<close>

theorem operation_names_union_first_seen_witness:
  "''__proto__'' \<notin> set (allOperations [single ''b'', single ''10'', single ''9'', single ''b'']) \<and>
   allOperations [single ''b'', single ''10'', single ''9'', single ''b''] = [''b'', ''10'', ''9''] \<and>
   (\<exists>db. scaly (Array [single ''b'', single ''10'', single ''9'', single ''b'']) = Inr db \<and>
      Object_keys db = [''9'', ''10'', ''b''] \<and>
      map_of (own db) ''9'' =
        Some (DB_op [single ''b'', single ''10'', single ''9'', single ''b''] ''9'')) \<and>
   ''__proto__'' \<notin> set (allOperations [memoryCache, persistentDB]) \<and>
   index_keys (allOperations [memoryCache, persistentDB]) = [] \<and>
   (\<exists>db. scaly (Array [memoryCache, persistentDB]) = Inr db \<and>
      Object_keys db = [''getUID'', ''destroySession''])"
proof -
  let ?ls = "[single ''b'', single ''10'', single ''9'', single ''b'']"
  let ?ms = "[memoryCache, persistentDB]"
  have ops: "allOperations ?ls = [''b'', ''10'', ''9'']"
    by (rule keys_example(1))
  have np: "''__proto__'' \<notin> set (allOperations ?ls)"
    by (simp add: ops)
  have mops: "allOperations ?ms = [''getUID'', ''destroySession'']"
    by (simp add: allOperations_def new_Set_def Set_add_def memoryCache_def persistentDB_def)
  have mnp: "''__proto__'' \<notin> set (allOperations ?ms)"
    by (simp add: mops)
  have mix: "index_keys (allOperations ?ms) = []"
    by (simp add: mops index_keys_def array_index_def digit_def)
  from operation_names_union_first_seen [of ?ls] np obtain db where
    db: "scaly (Array ?ls) = Inr db"
      "\<forall>op \<in> set (Object_keys db). map_of (own db) op = Some (DB_op ?ls op)"
    by blast
  from composed_example(1) db(1) have keys: "Object_keys db = [''9'', ''10'', ''b'']"
    by simp
  with db(2) have val: "map_of (own db) ''9'' = Some (DB_op ?ls ''9'')"
    by simp
  from operation_names_union_first_seen [of ?ms] mnp mix obtain mdb where
    mdb: "scaly (Array ?ms) = Inr mdb" "Object_keys mdb = allOperations ?ms"
    by blast
  from db(1) keys val have a: "\<exists>db. scaly (Array ?ls) = Inr db \<and>
      Object_keys db = [''9'', ''10'', ''b''] \<and>
      map_of (own db) ''9'' = Some (DB_op ?ls ''9'')"
    by blast
  from mdb mops have b: "\<exists>db. scaly (Array ?ms) = Inr db \<and>
      Object_keys db = [''getUID'', ''destroySession'']"
    by simp
  from np ops a mnp mix b show ?thesis by blast
qed

text \<open>
  Counterexample to C8 as stated: the layers' keys are \<open>''b''\<close> and then
  \<open>''1''\<close>, and the composed object lists \<open>''1''\<close> before \<open>''b''\<close>.
\<close>

theorem composed_keys_not_first_seen:
  "map_sum id Object_keys (scaly (Array [single ''b'', single ''1''])) = Inr [''1'', ''b''] \<and>
   first_seen (concat (map own_keys [single ''b'', single ''1''])) = [''b'', ''1'']"
proof (intro conjI)
  show "map_sum id Object_keys (scaly (Array [single ''b'', single ''1''])) = Inr [''1'', ''b'']"
    by (rule composed_example(2))
  show "first_seen (concat (map own_keys [single ''b'', single ''1''])) = [''b'', ''1'']"
    by (simp add: single_def)
qed

subsection \<open>C9: the entry point\<close>

text \<open>
  Claim C9. Called with a target layer followed by a further layer, the form
  \<^verbatim>\<open>scaly(target, ...sources)\<close> that \<^verbatim>\<open>index.d.ts\<close> declares and
  \<^verbatim>\<open>index.test-d.ts\<close> uses, the entry point returns no composed object: it looks at its
  first argument only, which is not an array, and throws the \<^verbatim>\<open>TypeError\<close> of line 3.
\<close>

theorem scaly_rejects_target_and_sources:
  "scaly_call [Object memoryCache, Object persistentDB] =
     Inl (TypeError ''layers must be an array'')"
  by (simp add: scaly_call_def scaly_def)

subsection \<open>C10: the value of a result is defined\<close>

text \<open>
  Claim C10. A call that returns \<^verbatim>\<open>[ok, value]\<close> never carries \<^verbatim>\<open>undefined\<close>:
  neither \<^verbatim>\<open>[true, undefined]\<close> nor \<^verbatim>\<open>[false, undefined]\<close> is returned. The
  value is what the first drive of some layer was fulfilled with, and \<^verbatim>\<open>ok\<close> is that
  drive's \<^verbatim>\<open>done\<close>: a defined value returned gives \<^verbatim>\<open>[true, value]\<close>, a defined
  value yielded gives \<^verbatim>\<open>[false, value]\<close>, and a drive fulfilled with
  \<^verbatim>\<open>undefined\<close> gives no result.
\<close>

theorem returned_value_defined:
  assumes "DB_op layers op args sched w = (Returns ok u, st)"
  shows "u \<noteq> None \<and> (\<exists>i. Drive i (Fulfilled u ok) \<in> set (actions st))"
  using assms
proof (cases rule: DB_op_cases)
  case exhausted
  then show ?thesis by simp
next
  case (stopped pre l rest st0 s es)
  from stopped_by_result [OF stopped(7)] have "u \<noteq> None \<and> s = Fulfilled u ok"
    by auto
  moreover have "Drive (length pre) s \<in> set (actions st)"
    by (simp add: stopped(4))
  ultimately show ?thesis by blast
qed

text \<open>
  Witness for C10: the value of the result of the cache miss is \<open>7\<close>.
\<close>

theorem returned_value_defined_witness:
  "DB_op [memoryCache, persistentDB] ''getUID'' [7] [] None =
     (Returns True (Some 7), snd (DB_op [memoryCache, persistentDB] ''getUID'' [7] [] None)) \<and>
   Some (7 :: nat) \<noteq> None"
proof -
  have run: "DB_op [memoryCache, persistentDB] ''getUID'' [7] [] None =
     (Returns True (Some 7), snd (DB_op [memoryCache, persistentDB] ''getUID'' [7] [] None))"
    using run_hit(1) by (metis prod.collapse)
  from returned_value_defined [OF run] run show ?thesis
    by simp
qed

end
